theory Spec2Isabelle
  imports Main
begin

section \<open>Nightwatch: domain types (src/types.ts)\<close>

text \<open>
  JavaScript strings are modelled as \<^typ>\<open>string\<close>: a list of code units, each below
  U+0100 (the character with code \<open>n\<close> stands for the code unit U+00\<open>n\<close>). Numbers that
  the code only uses as counters and indices are \<^typ>\<open>nat\<close> or \<^typ>\<open>int\<close>.
  Field names of different source types that coincide are told apart by a prefix, since
  record fields share one name space.
\<close>

record PlanStep =
  action :: string
  reason :: string

record RemediationPlan =
  plan_summary :: string
  steps :: "PlanStep list"
  verification :: "PlanStep list"

datatype StepStatus = Success | Failure

record StepResult =
  step :: string
  status :: StepStatus
  exitCode :: int
  stdout :: string
  stderr :: string
  timestamp :: string

record ExecutionResult =
  results :: "StepResult list"
  failedAtStep :: int

record IncidentNode =
  node_container :: string
  node_type :: string
  node_evidence :: "string list"
  node_timestamp :: string

record CausalLink =
  link_from :: int
  link_to :: int

record IncidentGraph =
  nodes :: "IncidentNode list"
  edges :: "CausalLink list"
  root :: "int option"
  graph_summary :: string

record FeasibilityAssessment =
  feasible :: bool
  feas_summary :: string
  blocking_reason :: "string option"

datatype FailureType =
    remediation_command_rejected
  | verification_command_rejected
  | execution_failed
  | verification_failed
  | user_rejected

record FailureContext =
  fc_type :: FailureType
  fc_step :: "string option"
  fc_reason :: "string option"
  fc_output :: "string option"

datatype Resolution = pending | resolved | observed | dismissed

record HistoryEntry =
  he_timestamp :: string
  he_capability :: string
  he_success :: bool
  he_summary :: string

text \<open>
  \<open>xs[i]\<close> for a number \<open>i\<close>: \<open>undefined\<close> (here \<open>None\<close>) outside the array. Reading a
  property of \<open>undefined\<close> throws a \<open>TypeError\<close>.
\<close>

definition nth_opt :: "'a list \<Rightarrow> int \<Rightarrow> 'a option" where
  "nth_opt xs i = (if 0 \<le> i \<and> i < int (length xs) then Some (xs ! nat i) else None)"

text \<open>The decimal text of an integer, as a template literal prints it.\<close>

fun show_nat :: "nat \<Rightarrow> string" where
  "show_nat n =
     (if n < 10 then [''0123456789'' ! n]
      else show_nat (n div 10) @ [''0123456789'' ! (n mod 10)])"

definition show_int :: "int \<Rightarrow> string" where
  "show_int i = (if i < 0 then CHR ''-'' # show_nat (nat (- i)) else show_nat (nat i))"

section \<open>Command executor (src/execution/executor.ts)\<close>

text \<open>
  \<open>execCmd\<close> spawns a process: it is a parameter of the model, a function from the command
  and the outside world \<open>'w\<close> to its \<open>CommandResult\<close> and the world afterwards. The clock
  read by \<open>new Date().toISOString()\<close> is a second parameter.
\<close>

record CommandResult =
  cmd_success :: bool
  cmd_exitCode :: int
  cmd_stdout :: string
  cmd_stderr :: string

type_synonym 'w execCmd = "string \<Rightarrow> 'w \<Rightarrow> CommandResult \<times> 'w"
type_synonym 'w clock = "'w \<Rightarrow> string"

text \<open>
  The \<open>for\<close> loop of \<open>executeCommands\<close>: the first argument is the rest of \<open>steps\<close> from
  index \<open>i\<close> on, \<open>acc\<close> is the array \<open>results\<close> built so far.
\<close>

fun executeCommands_loop ::
  "'w execCmd \<Rightarrow> 'w clock \<Rightarrow> PlanStep list \<Rightarrow> nat \<Rightarrow> StepResult list \<Rightarrow> 'w
     \<Rightarrow> ExecutionResult \<times> 'w" where
  "executeCommands_loop ex clk [] i acc w = (\<lparr>results = acc, failedAtStep = - 1\<rparr>, w)"
| "executeCommands_loop ex clk (s # rest) i acc w =
     (let command = action s;
          (cmdResult, w1) = ex command w;
          acc1 = acc @ [\<lparr>step = command,
                          status = (if cmd_success cmdResult then Success else Failure),
                          exitCode = cmd_exitCode cmdResult,
                          stdout = cmd_stdout cmdResult,
                          stderr = cmd_stderr cmdResult,
                          timestamp = clk w1\<rparr>]
      in if \<not> cmd_success cmdResult
         then (\<lparr>results = acc1, failedAtStep = int i\<rparr>, w1)
         else executeCommands_loop ex clk rest (Suc i) acc1 w1)"

definition executeCommands ::
  "'w execCmd \<Rightarrow> 'w clock \<Rightarrow> PlanStep list \<Rightarrow> 'w \<Rightarrow> ExecutionResult \<times> 'w" where
  "executeCommands ex clk stps w = executeCommands_loop ex clk stps 0 [] w"

definition all_success :: "StepResult list \<Rightarrow> bool" where
  "all_success rs = list_all (\<lambda>r. status r = Success) rs"

text \<open>
  What running commands one after the other means, apart from the loop: \<open>world_after\<close> is
  the world left by running the commands in order, each in the world the one before left,
  and \<open>result_of\<close> is the record that describes one run of \<open>execCmd\<close> on a command in a
  given world.
\<close>

definition world_after :: "'w execCmd \<Rightarrow> string list \<Rightarrow> 'w \<Rightarrow> 'w" where
  "world_after ex cmds w = foldl (\<lambda>w1 c. snd (ex c w1)) w cmds"

definition result_of :: "'w execCmd \<Rightarrow> 'w clock \<Rightarrow> string \<Rightarrow> 'w \<Rightarrow> StepResult" where
  "result_of ex clk command w =
     \<lparr>step = command,
      status = (if cmd_success (fst (ex command w)) then Success else Failure),
      exitCode = cmd_exitCode (fst (ex command w)),
      stdout = cmd_stdout (fst (ex command w)),
      stderr = cmd_stderr (fst (ex command w)),
      timestamp = clk (snd (ex command w))\<rparr>"

section \<open>JavaScript strings\<close>

text \<open>
  The white space that \<open>String.prototype.trim\<close> strips and that \<open>\s\<close> matches (WhiteSpace
  and LineTerminator of ECMAScript), among the code units below U+0100: TAB, LF, VT, FF,
  CR, SP and NBSP.
\<close>

definition is_space :: "char \<Rightarrow> bool" where
  "is_space c =
     (c \<in> set [CHR 0x09, CHR 0x0A, CHR 0x0B, CHR 0x0C, CHR 0x0D, CHR '' '', CHR 0xA0])"

definition is_digit :: "char \<Rightarrow> bool" where
  "is_digit c = (c \<in> set ''0123456789'')"

definition is_upper :: "char \<Rightarrow> bool" where
  "is_upper c = (c \<in> set ''ABCDEFGHIJKLMNOPQRSTUVWXYZ'')"

definition is_lower :: "char \<Rightarrow> bool" where
  "is_lower c = (c \<in> set ''abcdefghijklmnopqrstuvwxyz'')"

text \<open>\<open>\w\<close>: the 63 word characters \<open>[A-Za-z0-9_]\<close>; \<open>.\<close>: anything but a line terminator.\<close>

definition is_word :: "char \<Rightarrow> bool" where
  "is_word c = (is_upper c \<or> is_lower c \<or> is_digit c \<or> c = CHR ''_'')"

definition is_dot :: "char \<Rightarrow> bool" where
  "is_dot c = (c \<notin> set [CHR 0x0A, CHR 0x0D])"

text \<open>
  \<open>String.prototype.toLowerCase\<close> on one code unit below U+0100: \<open>A-Z\<close> go to \<open>a-z\<close>, and
  the capital letters U+00C0 to U+00DE (U+00D7, the multiplication sign, apart) move up
  by 32. \<open>digit7\<close> is the top bit of the code unit: it is set from U+0080 on.
\<close>

definition ascii_lower :: "char \<Rightarrow> char option" where
  "ascii_lower c =
     map_of (zip ''ABCDEFGHIJKLMNOPQRSTUVWXYZ'' ''abcdefghijklmnopqrstuvwxyz'') c"

definition lower_char :: "char \<Rightarrow> char" where
  "lower_char c =
     (case ascii_lower c of
        Some l \<Rightarrow> l
      | None \<Rightarrow>
          if digit7 c \<and> 192 \<le> (of_char c :: nat) \<and> (of_char c :: nat) \<le> 222
               \<and> (of_char c :: nat) \<noteq> 215
          then char_of ((of_char c :: nat) + 32) else c)"

definition toLowerCase :: "string \<Rightarrow> string" where
  "toLowerCase s = map lower_char s"

text \<open>
  Canonicalize of the regular-expression semantics under the \<open>i\<close> flag (no \<open>u\<close> flag)
  maps a code unit to its upper-case form: \<open>a-z\<close> to \<open>A-Z\<close>, U+00E0 to U+00FE (U+00F7
  apart) down by 32. U+00DF stays (its upper-case form has two code units); the micro
  sign and U+00FF go to code points above U+00FF that no other code unit below U+0100
  reaches, so they stand for their own images here. Two code units match under the \<open>i\<close>
  flag when their images are equal.
\<close>

definition ascii_upper :: "char \<Rightarrow> char option" where
  "ascii_upper c =
     map_of (zip ''abcdefghijklmnopqrstuvwxyz'' ''ABCDEFGHIJKLMNOPQRSTUVWXYZ'') c"

definition canonicalize :: "char \<Rightarrow> char" where
  "canonicalize c =
     (case ascii_upper c of
        Some u \<Rightarrow> u
      | None \<Rightarrow>
          if digit7 c \<and> 224 \<le> (of_char c :: nat) \<and> (of_char c :: nat) \<le> 254
               \<and> (of_char c :: nat) \<noteq> 247
          then char_of ((of_char c :: nat) - 32) else c)"

definition trim :: "string \<Rightarrow> string" where
  "trim s = rev (dropWhile is_space (rev (dropWhile is_space s)))"

fun starts_with :: "string \<Rightarrow> string \<Rightarrow> bool" where
  "starts_with s [] = True"
| "starts_with [] (k # ks) = False"
| "starts_with (x # xs) (k # ks) = (x = k \<and> starts_with xs ks)"

text \<open>\<open>s.includes(k)\<close>\<close>

fun str_includes :: "string \<Rightarrow> string \<Rightarrow> bool" where
  "str_includes [] k = starts_with [] k"
| "str_includes (x # xs) k = (starts_with (x # xs) k \<or> str_includes xs k)"

text \<open>\<open>xs.join(sep)\<close>\<close>

fun join :: "string \<Rightarrow> string list \<Rightarrow> string" where
  "join sep [] = []"
| "join sep [x] = x"
| "join sep (x # y # ys) = x @ sep @ join sep (y # ys)"

text \<open>
  \<open>new Set(xs)\<close>: the elements of \<open>xs\<close> in the order of their first occurrence, which is
  the order a \<open>for ... of\<close> loop and \<open>Array.from\<close> visit them in.
\<close>

definition Set_add :: "'a list \<Rightarrow> 'a \<Rightarrow> 'a list" where
  "Set_add acc x = (if x \<in> set acc then acc else acc @ [x])"

definition new_Set :: "'a list \<Rightarrow> 'a list" where
  "new_Set xs = foldl Set_add [] xs"

section \<open>Regular expressions\<close>

text \<open>
  The regular expressions of the source use literals, classes, sequence, alternation,
  optional groups, \<open>*\<close> and \<open>+\<close> on a single class, \<open>^\<close>, \<open>\b\<close> and one negative lookahead.
  \<open>RegExp.prototype.test\<close> (no \<open>g\<close> or \<open>y\<close> flag) asks whether a match starts at some
  index \<open>0 \<dots> length\<close>, so greedy and lazy quantifiers need not be told apart.

  A position in the subject is the code unit before it (none at index 0) and the rest of
  the subject; \<open>rxm\<close> lists the positions where a match that starts at a position can end.
\<close>

datatype rx =
    Eps
  | Lit char
  | Cls "char \<Rightarrow> bool"
  | Seq rx rx
  | Alt rx rx
  | Opt rx
  | Star "char \<Rightarrow> bool"
  | Bol
  | WordB
  | NotAhead rx

type_synonym pos = "char option \<times> string"

fun star_states :: "(char \<Rightarrow> bool) \<Rightarrow> char option \<Rightarrow> string \<Rightarrow> pos list" where
  "star_states f p [] = [(p, [])]"
| "star_states f p (x # xs) = (p, x # xs) # (if f x then star_states f (Some x) xs else [])"

definition word_before :: "char option \<Rightarrow> bool" where
  "word_before p = (case p of None \<Rightarrow> False | Some c \<Rightarrow> is_word c)"

definition word_after :: "string \<Rightarrow> bool" where
  "word_after s = (case s of [] \<Rightarrow> False | c # _ \<Rightarrow> is_word c)"

text \<open>
  \<open>ci\<close> is the \<open>i\<close> flag. It changes how a literal compares; the classes that occur in
  the source's \<open>i\<close>-flagged expressions (\<open>\s\<close>, \<open>\d\<close>, \<open>.\<close>, \<open>[45]\<close>, \<open>[_\-\s]\<close>, \<open>[\s:=]\<close>)
  hold no cased character, so they match the same code units with and without it.
\<close>

definition char_matches :: "bool \<Rightarrow> char \<Rightarrow> char \<Rightarrow> bool" where
  "char_matches ci c x = (if ci then canonicalize x = canonicalize c else x = c)"

fun rxm :: "bool \<Rightarrow> rx \<Rightarrow> pos \<Rightarrow> pos list" where
  "rxm ci Eps q = [q]"
| "rxm ci (Lit c) (p, s) =
     (case s of [] \<Rightarrow> []
      | x # xs \<Rightarrow> if char_matches ci c x then [(Some x, xs)] else [])"
| "rxm ci (Cls f) (p, s) = (case s of [] \<Rightarrow> [] | x # xs \<Rightarrow> if f x then [(Some x, xs)] else [])"
| "rxm ci (Seq a b) q = concat (map (rxm ci b) (rxm ci a q))"
| "rxm ci (Alt a b) q = rxm ci a q @ rxm ci b q"
| "rxm ci (Opt a) q = rxm ci a q @ [q]"
| "rxm ci (Star f) (p, s) = star_states f p s"
| "rxm ci Bol (p, s) = (if p = None then [(p, s)] else [])"
| "rxm ci WordB (p, s) = (if word_before p \<noteq> word_after s then [(p, s)] else [])"
| "rxm ci (NotAhead a) q = (if rxm ci a q = [] then [q] else [])"

fun test_from :: "bool \<Rightarrow> rx \<Rightarrow> char option \<Rightarrow> string \<Rightarrow> bool" where
  "test_from ci r p [] = (rxm ci r (p, []) \<noteq> [])"
| "test_from ci r p (x # xs) = (rxm ci r (p, x # xs) \<noteq> [] \<or> test_from ci r (Some x) xs)"

text \<open>\<open>pattern.test(s)\<close>\<close>

definition rx_test :: "bool \<Rightarrow> rx \<Rightarrow> string \<Rightarrow> bool" where
  "rx_test ci r s = test_from ci r None s"

fun seqs :: "rx list \<Rightarrow> rx" where
  "seqs [] = Eps"
| "seqs (r # rs) = Seq r (seqs rs)"

fun alts :: "rx list \<Rightarrow> rx" where
  "alts [] = NotAhead Eps"
| "alts [r] = r"
| "alts (r # rs) = Alt r (alts rs)"

definition lits :: "string \<Rightarrow> rx" where
  "lits w = seqs (map Lit w)"

definition Plus :: "(char \<Rightarrow> bool) \<Rightarrow> rx" where
  "Plus f = Seq (Cls f) (Star f)"

section \<open>Command validator (src/execution/validator.ts)\<close>

record CommandValidationError =
  err_command :: string
  err_reason :: string

text \<open>An entry of \<open>BLOCKED_PATTERNS\<close>: the expression, its \<open>i\<close> flag, the reason.\<close>

type_synonym blocked_pattern = "rx \<times> bool \<times> string"

definition rx_start_docker :: rx where
  "rx_start_docker = seqs [Bol, NotAhead (seqs [lits ''docker'', Cls is_space])]"

definition rx_sh_c :: rx where
  "rx_sh_c = seqs [WordB, lits ''sh'', Plus is_space, lits ''-c'', WordB]"

definition rx_bash_c :: rx where
  "rx_bash_c = seqs [WordB, lits ''bash'', Plus is_space, lits ''-c'', WordB]"

definition rx_assignment :: rx where
  "rx_assignment =
     seqs [WordB, Cls (\<lambda>c. is_lower c \<or> is_upper c \<or> c = CHR ''_''),
           Star (\<lambda>c. is_lower c \<or> is_upper c \<or> is_digit c \<or> c = CHR ''_''), Lit CHR ''='']"

definition rx_rm_root :: rx where
  "rx_rm_root = seqs [lits ''rm'', Plus is_space, lits ''-rf'', Plus is_space, Lit CHR ''/'']"

definition rx_rm_root_star :: rx where
  "rx_rm_root_star =
     seqs [lits ''rm'', Plus is_space, lits ''-rf'', Plus is_space, Lit CHR ''/'', Lit CHR ''*'']"

definition rx_dd :: rx where
  "rx_dd = seqs [lits ''dd'', Plus is_space, lits ''if='']"

definition rx_mkfs :: rx where
  "rx_mkfs = seqs [lits ''mkfs'', Opt (seqs [Lit CHR ''.'', Plus is_word])]"

definition rx_dev_sd :: rx where
  "rx_dev_sd = seqs [Lit CHR ''>'', Star is_space, lits ''/dev/sd'', Cls is_lower]"

definition rx_curl_pipe :: rx where
  "rx_curl_pipe =
     seqs [lits ''curl'', Plus is_space, Star is_dot, Lit CHR ''|'', Star is_space,
           Alt (lits ''bash'') (lits ''sh'')]"

definition rx_wget_pipe :: rx where
  "rx_wget_pipe =
     seqs [lits ''wget'', Plus is_space, Star is_dot, Lit CHR ''|'', Star is_space,
           Alt (lits ''bash'') (lits ''sh'')]"

definition must_start_with_docker :: string where
  "must_start_with_docker = ''Command must start with 'docker'' @ [CHR 0x27]"

definition BLOCKED_PATTERNS :: "blocked_pattern list" where
  "BLOCKED_PATTERNS =
    [(rx_start_docker, True, must_start_with_docker),
     (rx_sh_c, True, ''Shell invocation not allowed''),
     (rx_bash_c, True, ''Shell invocation not allowed''),
     (Lit CHR ''|'', False, ''Pipes not allowed''),
     (Lit CHR ''>'', False, ''Output redirection not allowed''),
     (Lit CHR ''<'', False, ''Input redirection not allowed''),
     (lits ''$('', False, ''Command substitution not allowed''),
     (Lit (CHR 0x60), False, ''Backtick substitution not allowed''),
     (lits ''&&'', False, ''Command chaining (&&) not allowed''),
     (lits ''||'', False, ''Command chaining (||) not allowed''),
     (Lit CHR '';'', False, ''Command chaining (;) not allowed''),
     (rx_assignment, False, ''Variable assignment not allowed''),
     (Lit CHR ''('', False, ''Subshell not allowed''),
     (Lit CHR '')'', False, ''Subshell not allowed''),
     (rx_rm_root, False, ''Destructive rm pattern blocked''),
     (rx_rm_root_star, False, ''Destructive rm pattern blocked''),
     (rx_dd, False, ''Destructive dd pattern blocked''),
     (rx_mkfs, False, ''Filesystem formatting blocked''),
     (rx_dev_sd, False, ''Direct disk write blocked''),
     (rx_curl_pipe, True, ''Remote code execution blocked''),
     (rx_wget_pipe, True, ''Remote code execution blocked'')]"

text \<open>
  \<open>new RegExp(`\\b${escapeRegex(name)}\\b`)\<close>: \<open>escapeRegex\<close> puts a backslash before every
  character that has a meaning in a pattern, so the expression compiled from the text is
  the name, character by character, between two word boundaries.
\<close>

definition container_pattern :: "string \<Rightarrow> rx" where
  "container_pattern name = seqs [WordB, lits name, WordB]"

fun findTargetContainer_loop ::
  "string \<Rightarrow> string list \<Rightarrow> string option \<Rightarrow> nat \<Rightarrow> string option \<times> nat" where
  "findTargetContainer_loop command [] found count = (found, count)"
| "findTargetContainer_loop command (name # rest) found count =
     (if rx_test False (container_pattern name) command
      then findTargetContainer_loop command rest (Some name) (count + 1)
      else findTargetContainer_loop command rest found count)"

definition findTargetContainer :: "string \<Rightarrow> string list \<Rightarrow> string option" where
  "findTargetContainer command knownContainers =
     (let (found, count) = findTargetContainer_loop command knownContainers None 0
      in if count = 1 then found else None)"

text \<open>The loop over \<open>BLOCKED_PATTERNS\<close>: the reason of the first entry that matches.\<close>

fun first_blocked :: "blocked_pattern list \<Rightarrow> string \<Rightarrow> string option" where
  "first_blocked [] trimmed = None"
| "first_blocked ((pattern, ci, rsn) # rest) trimmed =
     (if rx_test ci pattern trimmed then Some rsn else first_blocked rest trimmed)"

text \<open>
  \<open>validateCommand\<close> returns nothing or throws: \<open>Inr ()\<close> is the normal return, \<open>Inl\<close> the
  \<open>CommandValidationError\<close> thrown. \<open>knownContainers\<close> is a \<open>Set\<close>, given as the list of
  its elements in iteration order. \<open>!trimmed\<close> holds of the empty string only; \<open>!target\<close>
  holds of \<open>null\<close> and of the empty string.
\<close>

definition validateCommand :: "string \<Rightarrow> string list \<Rightarrow> CommandValidationError + unit" where
  "validateCommand command knownContainers =
     (let trimmed = trim command in
      if trimmed = [] then
        Inl \<lparr>err_command = command, err_reason = ''Empty command not allowed''\<rparr>
      else case first_blocked BLOCKED_PATTERNS trimmed of
        Some rsn \<Rightarrow> Inl \<lparr>err_command = command, err_reason = rsn\<rparr>
      | None \<Rightarrow>
          let target = findTargetContainer trimmed knownContainers in
          if target = None \<or> target = Some [] then
            let matches = filter (\<lambda>c. rx_test False (container_pattern c) trimmed)
                                 knownContainers in
            if length matches = 0 then
              Inl \<lparr>err_command = command,
                   err_reason = ''Command does not reference any known container''\<rparr>
            else
              Inl \<lparr>err_command = command,
                   err_reason = ''Command references multiple containers: ''
                                  @ join '', '' matches\<rparr>
          else Inr ())"



section \<open>The decision table of the validator\<close>

text \<open>
  The table of \<open>BLOCKED_PATTERNS\<close> read as properties of the characters of a trimmed
  command. \<open>starts_with_docker\<close>: the command begins with \<open>docker\<close>, in any mix of upper
  and lower case, followed by a white-space character.
\<close>

fun starts_with_docker :: "string \<Rightarrow> bool" where
  "starts_with_docker (c1 # c2 # c3 # c4 # c5 # c6 # sp # rest) =
     (c1 \<in> set ''dD'' \<and> c2 \<in> set ''oO'' \<and> c3 \<in> set ''cC'' \<and> c4 \<in> set ''kK''
      \<and> c5 \<in> set ''eE'' \<and> c6 \<in> set ''rR'' \<and> is_space sp)"
| "starts_with_docker t = False"

text \<open>
  \<open>table_reason\<close>: the reason the table gives for a trimmed command, row by row from the
  top, or none when no row applies. The rows that are matched by plain search are given
  as such; the shell invocations, the assignment and \<open>rm -rf /\<close> keep their expressions.
  The rows for \<open>||\<close>, \<open>rm -rf /*\<close>, \<open>dd if=\<close>, \<open>/dev/sd\<close> and for \<open>curl\<close> and \<open>wget\<close> piped
  to a shell are left out: each of them applies only where an earlier row does.
\<close>

definition table_reason :: "string \<Rightarrow> string option" where
  "table_reason t =
     (if \<not> starts_with_docker t then Some must_start_with_docker
      else if rx_test True rx_sh_c t \<or> rx_test True rx_bash_c t
      then Some ''Shell invocation not allowed''
      else if CHR ''|'' \<in> set t then Some ''Pipes not allowed''
      else if CHR ''>'' \<in> set t then Some ''Output redirection not allowed''
      else if CHR ''<'' \<in> set t then Some ''Input redirection not allowed''
      else if str_includes t ''$('' then Some ''Command substitution not allowed''
      else if CHR 0x60 \<in> set t then Some ''Backtick substitution not allowed''
      else if str_includes t ''&&'' then Some ''Command chaining (&&) not allowed''
      else if CHR '';'' \<in> set t then Some ''Command chaining (;) not allowed''
      else if rx_test False rx_assignment t then Some ''Variable assignment not allowed''
      else if CHR ''('' \<in> set t \<or> CHR '')'' \<in> set t then Some ''Subshell not allowed''
      else if rx_test False rx_rm_root t then Some ''Destructive rm pattern blocked''
      else if str_includes t ''mkfs'' then Some ''Filesystem formatting blocked''
      else None)"

text \<open>\<open>blocked\<close>: some row of the table applies.\<close>

definition blocked :: "string \<Rightarrow> bool" where
  "blocked t \<longleftrightarrow>
     \<not> starts_with_docker t
   \<or> rx_test True rx_sh_c t \<or> rx_test True rx_bash_c t
   \<or> CHR ''|'' \<in> set t \<or> CHR ''>'' \<in> set t \<or> CHR ''<'' \<in> set t
   \<or> str_includes t ''$('' \<or> CHR 0x60 \<in> set t
   \<or> str_includes t ''&&'' \<or> CHR '';'' \<in> set t
   \<or> rx_test False rx_assignment t
   \<or> CHR ''('' \<in> set t \<or> CHR '')'' \<in> set t
   \<or> rx_test False rx_rm_root t
   \<or> str_includes t ''mkfs''"

text \<open>The character before a position: the last one of the text that lies before it.\<close>

definition char_before :: "string \<Rightarrow> char option" where
  "char_before a = (if a = [] then None else Some (last a))"

text \<open>\<open>references\<close>: the container name stands in the command between two word boundaries.\<close>

definition references :: "string \<Rightarrow> string \<Rightarrow> bool" where
  "references t name = rx_test False (container_pattern name) t"

section \<open>Resolution state (src/orchestration/state.ts)\<close>

text \<open>A turn of a conversation with the reasoner; only its kind and text are kept.\<close>

datatype Content =
    UserText string
  | ModelContent string
  | FunctionResponse string bool string

record IncidentResolutionState =
  logs :: "string list option"
  incidentGraph :: "IncidentGraph option"
  feasibility :: "FeasibilityAssessment option"
  plan :: "RemediationPlan option"
  executionResult :: "ExecutionResult option"
  verificationResult :: "ExecutionResult option"
  failureContext :: "FailureContext option"
  plannerHistory :: "Content list"
  planValidated :: bool
  resolution :: Resolution

record OrchestrationContext =
  attemptCount :: int
  maxAttempts :: int
  history :: "HistoryEntry list"
  orchestratorConversationHistory :: "Content list"

definition createInitialState :: "string list \<Rightarrow> IncidentResolutionState" where
  "createInitialState lgs =
     \<lparr>logs = Some lgs, incidentGraph = None, feasibility = None, plan = None,
      executionResult = None, verificationResult = None, failureContext = None,
      plannerHistory = [], planValidated = False, resolution = pending\<rparr>"

definition createInitialContext :: "int \<Rightarrow> OrchestrationContext" where
  "createInitialContext maxA =
     \<lparr>attemptCount = 0, maxAttempts = maxA, history = [],
      orchestratorConversationHistory = []\<rparr>"

section \<open>Capability contract (src/capabilities/types.ts)\<close>

datatype CapabilityData =
    ValidationData bool nat nat
  | VerificationData ExecutionResult bool
  | ExecutionData ExecutionResult bool
  | PlanRemediationData RemediationPlan

record CapabilityResult =
  res_success :: bool
  res_state :: IncidentResolutionState
  res_data :: "CapabilityData option"
  res_error :: "string option"
  res_idle :: "bool option"

definition success :: "IncidentResolutionState \<Rightarrow> CapabilityData option \<Rightarrow> CapabilityResult" where
  "success state dat =
     \<lparr>res_success = True, res_state = state, res_data = dat, res_error = None,
      res_idle = None\<rparr>"

definition failure :: "IncidentResolutionState \<Rightarrow> string \<Rightarrow> CapabilityResult" where
  "failure state err =
     \<lparr>res_success = False, res_state = state, res_data = None, res_error = Some err,
      res_idle = None\<rparr>"

text \<open>
  A capability that can throw returns \<open>Inl\<close> of the error message; \<open>Inr\<close> is its
  \<open>CapabilityResult\<close>.
\<close>

type_synonym 'a thrown = "string + 'a"

section \<open>validatePlan (src/capabilities/validatePlan/capability.ts)\<close>


section \<open>verifyPlan (src/capabilities/verifyPlan/capability.ts)\<close>

definition verifyPlan ::
  "'w execCmd \<Rightarrow> 'w clock \<Rightarrow> IncidentResolutionState \<Rightarrow> 'w \<Rightarrow> CapabilityResult thrown \<times> 'w" where
  "verifyPlan ex clk state w =
     (case plan state of
        None \<Rightarrow> (Inr (failure state ''Cannot verify: no plan exists.''), w)
      | Some pl \<Rightarrow>
     (case executionResult state of
        None \<Rightarrow> (Inr (failure state ''Cannot verify: execution has not been performed.''), w)
      | Some er \<Rightarrow>
          if failedAtStep er \<noteq> - 1 then
            (Inr (failure state ''Cannot verify: execution failed. Replanning required.''), w)
          else if length (verification pl) = 0 then
            (let emptyResult = \<lparr>results = [], failedAtStep = - 1\<rparr> in
             (Inr (success (state\<lparr>verificationResult := Some emptyResult,
                                   resolution := resolved\<rparr>)
                     (Some (VerificationData emptyResult True))), w))
          else
            (let (result, w1) = executeCommands ex clk (verification pl) w;
                 verified = (failedAtStep result = - 1)
             in if verified then
                  (Inr (success (state\<lparr>verificationResult := Some result,
                                        resolution := resolved\<rparr>)
                          (Some (VerificationData result True))), w1)
                else
                  (case (nth_opt (results result) (failedAtStep result),
                         nth_opt (verification pl) (failedAtStep result)) of
                     (Some failedStepResult, Some failedStep) \<Rightarrow>
                       (let failedStepAction = action failedStep;
                            output = (if stderr failedStepResult \<noteq> []
                                      then stderr failedStepResult
                                      else stdout failedStepResult);
                            updatedState = state\<lparr>verificationResult := Some result,
                              failureContext := Some
                                \<lparr>fc_type = verification_failed,
                                 fc_step = Some failedStepAction,
                                 fc_reason = Some (''Verification failed at step ''
                                               @ show_int (failedAtStep result + 1)),
                                 fc_output = Some output\<rparr>\<rparr>
                        in (Inr (failure updatedState
                                  (''Verification failed at step ''
                                     @ show_int (failedAtStep result + 1) @ '': ''
                                     @ (if output \<noteq> [] then output else failedStepAction))),
                            w1))
                   | _ \<Rightarrow> (Inl ''TypeError'', w1)))))"

section \<open>planRemediation (src/capabilities/planRemediation/capability.ts)\<close>

text \<open>
  The user message handed to the reasoner, as the sections it is assembled from (their
  rendering as text is not modelled). \<open>runAgent\<close> calls the reasoner: it is a parameter
  that returns the plan with the grown conversation, or throws. \<open>loadKnowledge\<close> reads a
  file and \<open>infrastructure.raw\<close> is the text of the compose file: parameters as well.
\<close>

record PlannerMessage =
  pm_infrastructure :: string
  pm_knowledge :: "string option"
  pm_graph :: IncidentGraph
  pm_rootNode :: IncidentNode
  pm_previousPlan :: "RemediationPlan option"
  pm_failureContext :: "FailureContext option"

type_synonym 'w runAgent =
  "PlannerMessage \<Rightarrow> Content list \<Rightarrow> 'w \<Rightarrow> (RemediationPlan \<times> Content list) thrown \<times> 'w"

definition planRemediation ::
  "'w runAgent \<Rightarrow> ('w \<Rightarrow> string option thrown) \<Rightarrow> string \<Rightarrow> IncidentResolutionState \<Rightarrow> 'w
     \<Rightarrow> CapabilityResult thrown \<times> 'w" where
  "planRemediation agent loadKnowledge infrastructure_raw state w =
     (case incidentGraph state of
        None \<Rightarrow> (Inr (failure state ''Cannot plan: no incident identified.''), w)
      | Some g \<Rightarrow>
      if length (nodes g) = 0 then
        (Inr (failure state ''Cannot plan: no incident identified.''), w)
      else
     (case feasibility state of
        None \<Rightarrow> (Inr (failure state ''Cannot plan: feasibility not assessed.''), w)
      | Some fe \<Rightarrow>
      if \<not> feasible fe then
        (Inr (failure state (''Cannot plan: not feasible. Reason: ''
                @ (case blocking_reason fe of None \<Rightarrow> ''null'' | Some b \<Rightarrow> b))), w)
      else
        let isReplanning = (plan state \<noteq> None \<and> failureContext state \<noteq> None) in
        if plan state \<noteq> None \<and> failureContext state = None then
          (Inr (failure state ''Plan already exists without failure context.''), w)
        else
     (case root g of
        None \<Rightarrow> (Inr (failure state ''Cannot plan: no root cause specified in graph.''), w)
      | Some rt \<Rightarrow>
     (case nth_opt (nodes g) rt of
        None \<Rightarrow> (Inr (failure state ''Cannot plan: root cause index out of bounds.''), w)
      | Some rootNode \<Rightarrow>
     (case loadKnowledge w of
        Inl e \<Rightarrow> (Inl e, w)
      | Inr knowledge \<Rightarrow>
          let userMessage =
                \<lparr>pm_infrastructure = infrastructure_raw,
                 pm_knowledge = knowledge,
                 pm_graph = g,
                 pm_rootNode = rootNode,
                 pm_previousPlan = (if isReplanning then plan state else None),
                 pm_failureContext = failureContext state\<rparr>
          in case agent userMessage (plannerHistory state) w of
               (Inr (result, conversationHistory), w1) \<Rightarrow>
                 (Inr (success
                   (state\<lparr>plan := Some result,
                          plannerHistory := conversationHistory,
                          planValidated := False,
                          executionResult := None,
                          verificationResult := None,
                          failureContext := None\<rparr>)
                   (Some (PlanRemediationData result))), w1)
             | (Inl e, w1) \<Rightarrow>
                 (Inr (failure state (''Planning failed: '' @ e)), w1))))))"

text \<open>
  The checks of \<open>planRemediation\<close> that come before the reasoner is called, as one
  predicate: the graph \<open>g\<close> has nodes and its root index names the node \<open>rootNode\<close>, the
  incident is feasible, and a plan that exists comes with a failure context.
\<close>

definition plannable :: "IncidentResolutionState \<Rightarrow> IncidentGraph \<Rightarrow> IncidentNode \<Rightarrow> bool" where
  "plannable state g rootNode \<longleftrightarrow>
     incidentGraph state = Some g \<and> nodes g \<noteq> []
   \<and> (\<exists>fe. feasibility state = Some fe \<and> feasible fe)
   \<and> (plan state = None \<or> failureContext state \<noteq> None)
   \<and> (\<exists>rt. root g = Some rt \<and> nth_opt (nodes g) rt = Some rootNode)"

section \<open>Orchestrator loop (src/orchestration/workflow.ts)\<close>

text \<open>
  What the loop gets from outside is a record of functions over the world \<open>'w\<close>: the two
  terminal dialogs, the call to the reasoner (with its retries; \<open>Inl\<close> when it throws), the
  handlers of the six capabilities the registry imports (each with the logging of its
  result; \<open>Inl\<close> when it throws), the knowledge store, the clock, and \<open>JSON.stringify\<close> of
  the state.
\<close>

datatype EscalationResolution = Continue string | Dismiss

datatype ApprovalChoice = Approve | Reject string

record FunctionCall =
  call_name :: string
  call_reason :: string
  call_needed_context :: string

record ModelResponse =
  modelContent :: "Content option"
  functionCalls :: "FunctionCall list"

record OrchestratorResult =
  or_state :: IncidentResolutionState
  or_idle :: bool

type_synonym 'w capability_handler =
  "IncidentResolutionState \<Rightarrow> 'w \<Rightarrow> CapabilityResult thrown \<times> 'w"

record 'w orchestrator_env =
  resolveEscalation :: "string \<Rightarrow> string \<Rightarrow> 'w \<Rightarrow> EscalationResolution \<times> 'w"
  askPlanApproval :: "'w \<Rightarrow> ApprovalChoice \<times> 'w"
  generateContent :: "Content list \<Rightarrow> 'w \<Rightarrow> ModelResponse thrown \<times> 'w"
  imported_handler :: "string \<Rightarrow> 'w capability_handler"
  addFact :: "string \<Rightarrow> string \<Rightarrow> 'w \<Rightarrow> 'w"
  now :: "'w clock"
  stringify :: "IncidentResolutionState \<Rightarrow> string"

definition reportFindings_handler :: "'w capability_handler" where
  "reportFindings_handler state w = (Inr (success (state\<lparr>resolution := observed\<rparr>) None), w)"

text \<open>
  \<open>CAPABILITY_REGISTRY[name]\<close>: what the property lookup on the registry object answers.
  For one of its nine keys it is the capability registered under the name (the handlers
  of \<open>escalate\<close> and \<open>requestApproval\<close> only throw; the loop never calls them). The object
  is a literal, so a name that is not a key is looked up on \<open>Object.prototype\<close>: for the
  names that \<open>Object.prototype\<close> supplies the lookup answers an inherited value, which has
  no \<open>config\<close>; for every other name it answers \<open>undefined\<close>.
\<close>

definition Object_prototype_keys :: "string list" where
  "Object_prototype_keys =
     [''constructor'', ''__defineGetter__'', ''__defineSetter__'', ''hasOwnProperty'',
      ''__lookupGetter__'', ''__lookupSetter__'', ''isPrototypeOf'', ''propertyIsEnumerable'',
      ''toString'', ''valueOf'', ''__proto__'', ''toLocaleString'']"

datatype 'w registry_value =
    Capability "'w capability_handler"
  | Inherited
  | Undefined

definition CAPABILITY_REGISTRY :: "'w orchestrator_env \<Rightarrow> string \<Rightarrow> 'w registry_value" where
  "CAPABILITY_REGISTRY env name =
     (if name \<in> set [''analyzeIncident'', ''assessFeasibility'', ''planRemediation'',
                      ''validatePlan'', ''executePlan'', ''verifyPlan'']
      then Capability (imported_handler env name)
      else if name = ''requestApproval''
      then Capability
             (\<lambda>state w. (Inl ''requestApproval is handled inline in the orchestration loop'', w))
      else if name = ''escalate''
      then Capability (\<lambda>state w. (Inl ''escalate is handled inline in the orchestration loop'', w))
      else if name = ''reportFindings'' then Capability reportFindings_handler
      else if name \<in> set Object_prototype_keys then Inherited
      else Undefined)"

text \<open>
  What one pass through the body of the \<open>while\<close> loop did. \<open>Dispatched name had idle\<close>: the
  handler of \<open>name\<close> was called and returned, \<open>had\<close> tells whether a \<open>failureContext\<close> was
  present at the call and \<open>idle\<close> whether the result was idle. \<open>HandlerThrew name had\<close>: the
  handler was called and threw. \<open>ReasonerThrew\<close>: the \<open>catch\<close> was reached before any
  handler was called.
\<close>

datatype iteration_event =
    CircuitBreakerDismiss
  | CircuitBreakerContext
  | ReasonerThrew
  | NoFunctionCall
  | EscalateDismiss
  | EscalateContext
  | ApprovalGranted
  | ApprovalRejected
  | Dispatched string bool bool
  | HandlerThrew string bool

text \<open>\<open>Next\<close>: the pass ended (or \<open>continue\<close>), the loop condition is tested again.
  \<open>Done\<close>: \<open>break\<close> or \<open>return\<close>.\<close>

datatype 'w iteration_outcome =
    Next IncidentResolutionState OrchestrationContext 'w
  | Done OrchestratorResult OrchestrationContext 'w

definition push_content :: "OrchestrationContext \<Rightarrow> Content \<Rightarrow> OrchestrationContext" where
  "push_content ctx c =
     ctx\<lparr>orchestratorConversationHistory := orchestratorConversationHistory ctx @ [c]\<rparr>"

definition push_history :: "OrchestrationContext \<Rightarrow> HistoryEntry \<Rightarrow> OrchestrationContext" where
  "push_history ctx h = ctx\<lparr>history := history ctx @ [h]\<rparr>"

text \<open>The \<open>catch\<close> block: the state is the one the pass began with.\<close>

definition caught ::
  "iteration_event \<Rightarrow> string \<Rightarrow> IncidentResolutionState \<Rightarrow> OrchestrationContext \<Rightarrow> 'w
     \<Rightarrow> iteration_event \<times> 'w iteration_outcome" where
  "caught ev msg state ctx w =
     (ev, Next state
            (push_content ctx
               (UserText (''Error occurred: '' @ msg
                            @ ''. Please select a capability to continue.''))) w)"

definition circuit_breaker ::
  "'w orchestrator_env \<Rightarrow> IncidentResolutionState \<Rightarrow> OrchestrationContext \<Rightarrow> 'w
     \<Rightarrow> iteration_event \<times> 'w iteration_outcome" where
  "circuit_breaker env state ctx w =
     (let (choice, w1) =
            resolveEscalation env
              (''Maximum remediation attempts ('' @ show_int (maxAttempts ctx) @ '') exhausted.'')
              ''Provide additional context about the infrastructure or incident to help the agent try a different approach.''
              w
      in case choice of
           Dismiss \<Rightarrow>
             (CircuitBreakerDismiss,
              Done \<lparr>or_state = state\<lparr>resolution := dismissed\<rparr>, or_idle = False\<rparr> ctx w1)
         | Continue context \<Rightarrow>
             (CircuitBreakerContext,
              Next state
                (push_content (ctx\<lparr>attemptCount := 0\<rparr>)
                   (UserText (''User provided additional context after max attempts: '' @ context
                      @ ''. Attempt counter has been reset. Continue resolving the incident with this new information.'')))
                (addFact env ''User context after max attempts reached'' context w1)))"

definition escalate_inline ::
  "'w orchestrator_env \<Rightarrow> FunctionCall \<Rightarrow> IncidentResolutionState \<Rightarrow> OrchestrationContext \<Rightarrow> 'w
     \<Rightarrow> iteration_event \<times> 'w iteration_outcome" where
  "escalate_inline env functionCall state ctx w =
     (let rsn = call_reason functionCall;
          neededContext = call_needed_context functionCall;
          (choice, w1) = resolveEscalation env rsn neededContext w
      in case choice of
           Dismiss \<Rightarrow>
             (EscalateDismiss,
              Next (state\<lparr>resolution := dismissed\<rparr>)
                (push_content
                   (push_history ctx
                      \<lparr>he_timestamp = now env w1, he_capability = ''escalate'',
                       he_success = True, he_summary = ''User dismissed the incident''\<rparr>)
                   (FunctionResponse ''escalate'' True ''User chose to dismiss the incident.''))
                w1)
         | Continue context \<Rightarrow>
             (let w2 = addFact env rsn context w1 in
              (EscalateContext,
               Next (state\<lparr>feasibility :=
                              (case feasibility state of
                                 Some fe \<Rightarrow> if \<not> feasible fe then None else Some fe
                               | None \<Rightarrow> None),
                            failureContext := None\<rparr>)
                 (push_content
                    (push_history ctx
                       \<lparr>he_timestamp = now env w2, he_capability = ''escalate'',
                        he_success = True,
                        he_summary = ''User provided context: '' @ context\<rparr>)
                    (FunctionResponse ''escalate'' True
                       ''User provided additional context. Feasibility has been reset if it was false. failureContext has been cleared. Re-evaluate the situation with this new information.''))
                 w2)))"

definition requestApproval_inline ::
  "'w orchestrator_env \<Rightarrow> IncidentResolutionState \<Rightarrow> OrchestrationContext \<Rightarrow> 'w
     \<Rightarrow> iteration_event \<times> 'w iteration_outcome" where
  "requestApproval_inline env state ctx w =
     (let (choice, w1) = askPlanApproval env w
      in case choice of
           Approve \<Rightarrow>
             (ApprovalGranted,
              Next state
                (push_content
                   (push_history ctx
                      \<lparr>he_timestamp = now env w1, he_capability = ''requestApproval'',
                       he_success = True, he_summary = ''User approved the plan''\<rparr>)
                   (FunctionResponse ''requestApproval'' True
                      ''User approved the plan. Proceed to executePlan.''))
                w1)
         | Reject feedback \<Rightarrow>
             (ApprovalRejected,
              Next (state\<lparr>failureContext := Some
                             \<lparr>fc_type = user_rejected, fc_step = None,
                              fc_reason = Some feedback, fc_output = None\<rparr>,
                           planValidated := False,
                           executionResult := None,
                           verificationResult := None\<rparr>)
                (push_content
                   (push_history ctx
                      \<lparr>he_timestamp = now env w1, he_capability = ''requestApproval'',
                       he_success = False, he_summary = ''User rejected: '' @ feedback\<rparr>)
                   (FunctionResponse ''requestApproval'' False
                      (''User rejected the plan. Feedback: '' @ [CHR 0x22] @ feedback
                         @ [CHR 0x22]
                         @ ''. Use planRemediation to create a revised plan addressing this feedback.'')))
                w1))"

definition generic_dispatch ::
  "'w orchestrator_env \<Rightarrow> string \<Rightarrow> 'w capability_handler \<Rightarrow> IncidentResolutionState
     \<Rightarrow> OrchestrationContext \<Rightarrow> 'w \<Rightarrow> iteration_event \<times> 'w iteration_outcome" where
  "generic_dispatch env capabilityName handler state ctx w =
     (let hadFailureContext = (failureContext state \<noteq> None)
      in case handler state w of
           (Inl e, w1) \<Rightarrow> caught (HandlerThrew capabilityName hadFailureContext) e state ctx w1
         | (Inr result, w1) \<Rightarrow>
             if res_idle result = Some True then
               (Dispatched capabilityName hadFailureContext True,
                Done \<lparr>or_state = res_state result, or_idle = True\<rparr> ctx w1)
             else
               let finalState = res_state result;
                   historyEntry =
                     \<lparr>he_timestamp = now env w1, he_capability = capabilityName,
                      he_success = res_success result,
                      he_summary = (if res_success result then ''Completed successfully''
                                    else (case res_error result of
                                            Some e \<Rightarrow> e | None \<Rightarrow> ''Unknown error''))\<rparr>;
                   ctx1 = push_content (push_history ctx historyEntry)
                            (FunctionResponse capabilityName (res_success result)
                               (he_summary historyEntry));
                   ctx2 = (if capabilityName = ''planRemediation'' \<and> hadFailureContext
                           then ctx1\<lparr>attemptCount := attemptCount ctx1 + 1\<rparr> else ctx1)
               in (Dispatched capabilityName hadFailureContext False, Next finalState ctx2 w1))"

fun outcome_context :: "'w iteration_outcome \<Rightarrow> OrchestrationContext" where
  "outcome_context (Next state ctx w) = ctx"
| "outcome_context (Done res ctx w) = ctx"

text \<open>One pass through the body of \<open>while (state.resolution === "pending")\<close>.\<close>

definition orchestrator_iteration ::
  "'w orchestrator_env \<Rightarrow> IncidentResolutionState \<Rightarrow> OrchestrationContext \<Rightarrow> 'w
     \<Rightarrow> iteration_event \<times> 'w iteration_outcome" where
  "orchestrator_iteration env state ctx w =
     (if attemptCount ctx \<ge> maxAttempts ctx then circuit_breaker env state ctx w
      else
        let ctx1 = push_content ctx (UserText (''Current State:'' @ [CHR 0x0A] @ stringify env state))
        in case generateContent env (orchestratorConversationHistory ctx1) w of
             (Inl e, w1) \<Rightarrow> caught ReasonerThrew e state ctx1 w1
           | (Inr response, w1) \<Rightarrow>
               (case modelContent response of
                  None \<Rightarrow> caught ReasonerThrew ''Empty response from orchestrator'' state ctx1 w1
                | Some content \<Rightarrow>
                    let ctx2 = push_content ctx1 content
                    in case functionCalls response of
                         [] \<Rightarrow>
                           (NoFunctionCall,
                            Next state
                              (push_content ctx2
                                 (UserText ''You must select a capability to invoke. Choose one of the available tools.''))
                              w1)
                       | functionCall # others \<Rightarrow>
                           let capabilityName = call_name functionCall
                           in case CAPABILITY_REGISTRY env capabilityName of
                                Undefined \<Rightarrow>
                                  caught ReasonerThrew (''Unknown capability: '' @ capabilityName)
                                    state ctx2 w1
                              | Inherited \<Rightarrow>
                                  caught ReasonerThrew
                                    (''Cannot read properties of undefined (reading ''
                                       @ [CHR 0x27] @ ''stage'' @ [CHR 0x27] @ '')'')
                                    state ctx2 w1
                              | Capability handler \<Rightarrow>
                                  if capabilityName = ''escalate''
                                  then escalate_inline env functionCall state ctx2 w1
                                  else if capabilityName = ''requestApproval''
                                  then requestApproval_inline env state ctx2 w1
                                  else generic_dispatch env capabilityName handler state ctx2 w1))"

text \<open>
  The loop, with fuel: the reasoner may never let it end. \<open>None\<close> means that the fuel ran
  out while the incident was still pending.
\<close>

fun run_loop ::
  "nat \<Rightarrow> 'w orchestrator_env \<Rightarrow> IncidentResolutionState \<Rightarrow> OrchestrationContext \<Rightarrow> 'w
     \<Rightarrow> (OrchestratorResult \<times> OrchestrationContext \<times> 'w) option" where
  "run_loop fuel env state ctx w =
     (if resolution state \<noteq> pending then Some (\<lparr>or_state = state, or_idle = False\<rparr>, ctx, w)
      else case fuel of
             0 \<Rightarrow> None
           | Suc n \<Rightarrow>
               (case orchestrator_iteration env state ctx w of
                  (ev, Next state' ctx' w') \<Rightarrow> run_loop n env state' ctx' w'
                | (ev, Done res ctx' w') \<Rightarrow> Some (res, ctx', w')))"

definition runOrchestrator ::
  "nat \<Rightarrow> 'w orchestrator_env \<Rightarrow> int \<Rightarrow> string list \<Rightarrow> 'w
     \<Rightarrow> (OrchestratorResult \<times> OrchestrationContext \<times> 'w) option" where
  "runOrchestrator fuel env maxActionsPerIncident lgs w =
     run_loop fuel env (createInitialState lgs) (createInitialContext maxActionsPerIncident) w"

text \<open>The events of the first \<open>n\<close> passes of the loop (fewer when it ends before).\<close>

fun loop_trace ::
  "nat \<Rightarrow> 'w orchestrator_env \<Rightarrow> IncidentResolutionState \<Rightarrow> OrchestrationContext \<Rightarrow> 'w
     \<Rightarrow> iteration_event list" where
  "loop_trace 0 env state ctx w = []"
| "loop_trace (Suc n) env state ctx w =
     (if resolution state \<noteq> pending then []
      else case orchestrator_iteration env state ctx w of
             (ev, Next state' ctx' w') \<Rightarrow> ev # loop_trace n env state' ctx' w'
           | (ev, Done res ctx' w') \<Rightarrow> [ev])"

text \<open>
  A replan: a call of the \<open>planRemediation\<close> handler made while a \<open>failureContext\<close> was
  present, whether the call returned to the loop or threw. A completed replan: one that
  returned.
\<close>

fun is_replan :: "iteration_event \<Rightarrow> bool" where
  "is_replan (Dispatched name hadFailureContext idle) =
     (name = ''planRemediation'' \<and> hadFailureContext)"
| "is_replan (HandlerThrew name hadFailureContext) =
     (name = ''planRemediation'' \<and> hadFailureContext)"
| "is_replan ev = False"

definition replans :: "iteration_event list \<Rightarrow> nat" where
  "replans evs = length (filter is_replan evs)"

fun is_completed_replan :: "iteration_event \<Rightarrow> bool" where
  "is_completed_replan (Dispatched name hadFailureContext idle) =
     (name = ''planRemediation'' \<and> hadFailureContext)"
| "is_completed_replan ev = False"

definition completed_replans :: "iteration_event list \<Rightarrow> nat" where
  "completed_replans evs = length (filter is_completed_replan evs)"

text \<open>
  How one pass may change the counters of the context: \<open>maxAttempts\<close> stays, and
  \<open>attemptCount\<close> goes up by one on a replan that returned and was not idle, goes to \<open>0\<close>
  when the user answers the circuit breaker with context, and stays otherwise.
\<close>

definition attempts_step ::
  "iteration_event \<Rightarrow> OrchestrationContext \<Rightarrow> OrchestrationContext \<Rightarrow> bool" where
  "attempts_step ev ctx ctx' \<longleftrightarrow>
     maxAttempts ctx' = maxAttempts ctx
   \<and> attemptCount ctx' =
       (if ev = Dispatched ''planRemediation'' True False then attemptCount ctx + 1
        else if ev = CircuitBreakerContext then 0
        else attemptCount ctx)"

section \<open>Log observer: filter (src/observation/logBuffer.ts)\<close>

datatype StreamType = Stdout | Stderr

record LogEvent =
  ev_container :: string
  ev_message :: string
  ev_stream :: StreamType
  ev_timestamp :: nat

definition LIFECYCLE_KEYWORDS :: "string list" where
  "LIFECYCLE_KEYWORDS =
     [''sigterm'', ''sigint'', ''sighup'', ''signal-handler'', ''received signal'',
      ''scheduling shutdown'',
      ''shutdown'', ''shutting down'', ''stopping'', ''stopped'', ''exiting'', ''bye bye'',
      ''graceful'', ''gracefully'', ''ready to exit'',
      ''starting'', ''started'', ''ready'', ''listening'', ''accepting connections'',
      ''server started'', ''initialized'',
      ''health check'', ''healthcheck'', ''keepalive'', ''heartbeat'']"

definition ERROR_KEYWORDS :: "string list" where
  "ERROR_KEYWORDS =
     [''error'', ''exception'', ''fatal'', ''critical'', ''panic'', ''crash'', ''crashed'',
      ''fail'', ''failed'', ''failure'', ''econnrefused'', ''timeout'', ''timedout'',
      ''timed out'', ''refused'', ''denied'', ''forbidden'', ''unavailable'',
      ''unreachable'', ''disconnected'', ''cannot connect'', ''unable to connect'',
      ''connection lost'', ''oom'', ''out of memory'', ''memory allocation'', ''disk full'',
      ''no space left'', ''resource exhausted'', ''oomkilled'', ''oom killed'', ''aborted'',
      ''segfault'', ''core dumped'', ''deadlock'', ''constraint'', ''duplicate key'',
      ''syntax error'', ''connection pool'', ''nosuchbucket'', ''access denied'',
      ''invalid credentials'', ''throttling'', ''cannot'', ''unable'', ''could not'',
      ''invalid'', ''missing'', ''not found'']"

definition is_4_or_5 :: "char \<Rightarrow> bool" where
  "is_4_or_5 c = (c \<in> set ''45'')"

definition rx_level_names :: rx where
  "rx_level_names = alts [lits ''error'', lits ''fatal'', lits ''critical'', lits ''panic'']"

definition rx_http_status :: rx where
  "rx_http_status =
     seqs [WordB, lits ''HTTP'', Cls (\<lambda>c. c = CHR ''/'' \<or> is_space c), Cls is_digit,
           Lit CHR ''.'', Cls is_digit, WordB, Plus is_dot, WordB,
           Cls is_4_or_5, Cls is_digit, Cls is_digit, WordB]"

definition rx_status_code :: rx where
  "rx_status_code =
     seqs [lits ''status'', Opt (Cls (\<lambda>c. c = CHR ''_'' \<or> c = CHR ''-'' \<or> is_space c)),
           Opt (lits ''code''), Plus (\<lambda>c. is_space c \<or> c = CHR '':'' \<or> c = CHR ''=''),
           Cls is_4_or_5, Cls is_digit, Cls is_digit, WordB]"

definition rx_json_status :: rx where
  "rx_json_status =
     seqs [Lit (CHR 0x22),
           alts [lits ''status'', lits ''code'', lits ''statusCode'', lits ''status_code''],
           Lit (CHR 0x22), Star is_space, Lit CHR '':'', Star is_space,
           Cls is_4_or_5, Cls is_digit, Cls is_digit, WordB]"

definition rx_status_text :: rx where
  "rx_status_text =
     seqs [WordB, Cls is_4_or_5, Cls is_digit, Cls is_digit, Plus is_space,
           alts [lits ''Bad Request'', lits ''Unauthorized'', lits ''Forbidden'',
                 lits ''Not Found'', lits ''Method Not Allowed'', lits ''Conflict'',
                 lits ''Gone'', lits ''Too Many Requests'', lits ''Internal Server Error'',
                 lits ''Bad Gateway'', lits ''Service Unavailable'', lits ''Gateway Timeout''],
           WordB]"

definition rx_json_level :: rx where
  "rx_json_level =
     seqs [Lit (CHR 0x22), lits ''level'', Lit (CHR 0x22), Star is_space, Lit CHR '':'',
           Star is_space, Lit (CHR 0x22), rx_level_names, Lit (CHR 0x22)]"

definition rx_level_eq :: rx where
  "rx_level_eq = seqs [lits ''level='', rx_level_names]"

definition rx_level_bracket :: rx where
  "rx_level_bracket = seqs [Lit CHR ''['', rx_level_names, Lit CHR '']'']"

definition rx_upper_level :: rx where
  "rx_upper_level = alts [lits ''ERROR'', lits ''FATAL'', lits ''CRITICAL'', lits ''SEVERE'']"

text \<open>\<open>ERROR_PATTERNS\<close>: each expression with its \<open>i\<close> flag.\<close>

definition ERROR_PATTERNS :: "(rx \<times> bool) list" where
  "ERROR_PATTERNS =
     [(rx_http_status, False), (rx_status_code, True), (rx_json_status, False),
      (rx_status_text, False), (rx_json_level, True), (rx_level_eq, True),
      (rx_level_bracket, True), (rx_upper_level, False)]"

text \<open>The two \<open>for\<close> loops with their early \<open>return true\<close>.\<close>

fun some_keyword :: "string list \<Rightarrow> string \<Rightarrow> bool" where
  "some_keyword [] lower = False"
| "some_keyword (keyword # rest) lower =
     (if str_includes lower keyword then True else some_keyword rest lower)"

fun some_pattern :: "(rx \<times> bool) list \<Rightarrow> string \<Rightarrow> bool" where
  "some_pattern [] msg = False"
| "some_pattern ((pattern, ci) # rest) msg =
     (if rx_test ci pattern msg then True else some_pattern rest msg)"

definition isLifecycleEvent :: "string \<Rightarrow> bool" where
  "isLifecycleEvent msg = (let lower = toLowerCase msg in some_keyword LIFECYCLE_KEYWORDS lower)"

definition hasErrorIndicator :: "LogEvent \<Rightarrow> bool" where
  "hasErrorIndicator event =
     (let msg = toLowerCase (ev_message event) in
      if some_keyword ERROR_KEYWORDS msg then True
      else some_pattern ERROR_PATTERNS (ev_message event))"

definition shouldInclude :: "LogEvent \<Rightarrow> bool" where
  "shouldInclude event =
     (if isLifecycleEvent (ev_message event) then False
      else if ev_stream event = Stderr then True
      else hasErrorIndicator event)"

text \<open>
  Containment without regard to case, said without \<open>toLowerCase\<close>: two code units are
  the same letter when they are equal or are the upper-case and the lower-case form of
  one of the 26 letters; \<open>includes_ignoring_case s k\<close> holds when some stretch of \<open>s\<close> is
  \<open>k\<close> letter by letter in this sense.
\<close>

definition same_letter :: "char \<Rightarrow> char \<Rightarrow> bool" where
  "same_letter x y \<longleftrightarrow>
     x = y
   \<or> (x, y) \<in> set (zip ''ABCDEFGHIJKLMNOPQRSTUVWXYZ'' ''abcdefghijklmnopqrstuvwxyz'')
   \<or> (y, x) \<in> set (zip ''ABCDEFGHIJKLMNOPQRSTUVWXYZ'' ''abcdefghijklmnopqrstuvwxyz'')"

fun starts_with_ignoring_case :: "string \<Rightarrow> string \<Rightarrow> bool" where
  "starts_with_ignoring_case s [] = True"
| "starts_with_ignoring_case [] (k # ks) = False"
| "starts_with_ignoring_case (x # xs) (k # ks) =
     (same_letter x k \<and> starts_with_ignoring_case xs ks)"

fun includes_ignoring_case :: "string \<Rightarrow> string \<Rightarrow> bool" where
  "includes_ignoring_case [] k = starts_with_ignoring_case [] k"
| "includes_ignoring_case (x # xs) k =
     (starts_with_ignoring_case (x # xs) k \<or> includes_ignoring_case xs k)"

section \<open>Log observer: batching (src/observation/logBuffer.ts)\<close>

record LogBatch =
  batch_logs :: "string list"
  batch_containers :: "string list"
  triggeredAt :: nat

text \<open>
  The closure of \<open>startMonitoring\<close>: the buffer, the timer handle and the flag. A handle
  is \<open>Armed\<close> with its delay until it runs or is cleared; once its callback has run the
  variable still holds it (\<open>Expired\<close>) until something assigns \<open>null\<close>.
\<close>

datatype timeout = Armed nat | Expired

record monitor =
  buffer :: "LogEvent list"
  timer :: "timeout option"
  isProcessing :: bool

definition MAX_BUFFER_SIZE :: nat where
  "MAX_BUFFER_SIZE = 100"

definition initial_monitor :: monitor where
  "initial_monitor = \<lparr>buffer = [], timer = None, isProcessing = False\<rparr>"

definition format_log :: "LogEvent \<Rightarrow> string" where
  "format_log e = ''['' @ ev_container e @ ''] '' @ ev_message e"

text \<open>
  \<open>flush\<close> up to its \<open>await\<close>: the batch handed to \<open>onBatchReady\<close>, if any. \<open>time\<close> is
  \<open>Date.now()\<close>.
\<close>

definition flush :: "nat \<Rightarrow> monitor \<Rightarrow> monitor \<times> LogBatch option" where
  "flush time m =
     (if length (buffer m) = 0 \<or> isProcessing m then (m, None)
      else
        let batch = \<lparr>batch_logs = map format_log (buffer m),
                     batch_containers = new_Set (map ev_container (buffer m)),
                     triggeredAt = time\<rparr>
        in (m\<lparr>isProcessing := True, buffer := [], timer := None\<rparr>, Some batch))"

text \<open>The \<open>finally\<close> block of \<open>flush\<close>, run when the callback has completed.\<close>

definition flush_finally :: "nat \<Rightarrow> monitor \<Rightarrow> monitor" where
  "flush_finally windowMs m =
     (let m1 = m\<lparr>isProcessing := False\<rparr> in
      if length (buffer m1) > 0 \<and> timer m1 = None then
        let delay = (if length (buffer m1) \<ge> MAX_BUFFER_SIZE then 0 else windowMs)
        in m1\<lparr>timer := Some (Armed delay)\<rparr>
      else m1)"

definition handleLogEvent ::
  "nat \<Rightarrow> nat \<Rightarrow> monitor \<Rightarrow> LogEvent \<Rightarrow> monitor \<times> LogBatch option" where
  "handleLogEvent windowMs time m event =
     (if \<not> shouldInclude event then (m, None)
      else
        let m1 = m\<lparr>buffer := buffer m @ [event]\<rparr> in
        if length (buffer m1) \<ge> MAX_BUFFER_SIZE \<and> \<not> isProcessing m1 then
          let m2 = (if timer m1 \<noteq> None then m1\<lparr>timer := None\<rparr> else m1)
          in flush time m2
        else if \<not> isProcessing m1 then (m1\<lparr>timer := Some (Armed windowMs)\<rparr>, None)
        else (m1, None))"

text \<open>The callback of \<open>setTimeout\<close>: it runs only while its handle is armed.\<close>

definition timer_fires :: "nat \<Rightarrow> monitor \<Rightarrow> monitor \<times> LogBatch option" where
  "timer_fires time m =
     (case timer m of
        Some (Armed delay) \<Rightarrow> flush time (m\<lparr>timer := Some Expired\<rparr>)
      | _ \<Rightarrow> (m, None))"

definition stop :: "monitor \<Rightarrow> monitor" where
  "stop m = (if timer m \<noteq> None then m\<lparr>timer := None\<rparr> else m)"

text \<open>
  What can happen to a running monitor, each with the time it happens at: a log line
  arrives, the armed timer runs, the batch callback in flight completes.
\<close>

datatype monitor_input = Log LogEvent | TimerFires | CallbackDone

definition monitor_step ::
  "nat \<Rightarrow> monitor \<Rightarrow> nat \<times> monitor_input \<Rightarrow> monitor \<times> LogBatch option" where
  "monitor_step windowMs m inp =
     (case inp of
        (time, Log event) \<Rightarrow> handleLogEvent windowMs time m event
      | (time, TimerFires) \<Rightarrow> timer_fires time m
      | (time, CallbackDone) \<Rightarrow>
          if isProcessing m then (flush_finally windowMs m, None) else (m, None))"

text \<open>The state after a sequence of inputs.\<close>

fun monitor_run :: "nat \<Rightarrow> monitor \<Rightarrow> (nat \<times> monitor_input) list \<Rightarrow> monitor" where
  "monitor_run windowMs m [] = m"
| "monitor_run windowMs m (inp # rest) =
     monitor_run windowMs (fst (monitor_step windowMs m inp)) rest"

text \<open>
  What holds of the closure after any sequence of inputs: no timer is set while a batch
  is processed; a set timer is armed and the buffer is not empty; and when no batch is
  processed the buffer holds 100 events or more only while the zero-delay timer is armed
  that the end of a callback sets.
\<close>

definition monitor_inv :: "monitor \<Rightarrow> bool" where
  "monitor_inv m \<longleftrightarrow>
     (isProcessing m \<longrightarrow> timer m = None)
   \<and> (timer m \<noteq> None \<longrightarrow> buffer m \<noteq> [] \<and> (\<exists>d. timer m = Some (Armed d)))
   \<and> (\<not> isProcessing m \<and> MAX_BUFFER_SIZE \<le> length (buffer m) \<longrightarrow> timer m = Some (Armed 0))"

section \<open>A sample environment\<close>

text \<open>
  A concrete shell for the closed instances below: the world counts the commands run,
  every command succeeds except \<open>docker inspect db\<close>, and the clock shows a fixed time.
\<close>

definition sample_exec :: "nat execCmd" where
  "sample_exec c w =
     (if c = ''docker inspect db''
      then \<lparr>cmd_success = False, cmd_exitCode = 1, cmd_stdout = [],
            cmd_stderr = ''No such object: db''\<rparr>
      else \<lparr>cmd_success = True, cmd_exitCode = 0, cmd_stdout = ''true'', cmd_stderr = []\<rparr>,
      Suc w)"

definition sample_clock :: "nat clock" where
  "sample_clock w = ''2024-01-15T10:30:00.000Z''"

definition sample_plan :: RemediationPlan where
  "sample_plan =
     \<lparr>plan_summary = ''Restart the cache'',
      steps = [\<lparr>action = ''docker restart cache'', reason = ''cache stopped''\<rparr>],
      verification = [\<lparr>action = ''docker inspect cache'', reason = ''cache runs''\<rparr>,
                      \<lparr>action = ''docker inspect db'', reason = ''db runs''\<rparr>,
                      \<lparr>action = ''docker inspect api'', reason = ''api runs''\<rparr>]\<rparr>"

definition sample_state :: IncidentResolutionState where
  "sample_state =
     \<lparr>logs = Some [''[cache] Container stopped unexpectedly''],
      incidentGraph = Some
        \<lparr>nodes = [\<lparr>node_container = ''cache'', node_type = ''container.cache.stopped'',
                    node_evidence = [''[0] Container stopped unexpectedly''],
                    node_timestamp = ''2024-01-15T10:30:00Z''\<rparr>],
         edges = [], root = Some 0, graph_summary = ''Cache stopped''\<rparr>,
      feasibility = Some \<lparr>feasible = True, feas_summary = ''restart'', blocking_reason = None\<rparr>,
      plan = Some sample_plan,
      executionResult = None, verificationResult = None, failureContext = None,
      plannerHistory = [], planValidated = False, resolution = pending\<rparr>"


definition sample_executed :: IncidentResolutionState where
  "sample_executed =
     sample_state\<lparr>planValidated := True,
                  executionResult := Some
                    \<lparr>results = [\<lparr>step = ''docker restart cache'', status = Success,
                                  exitCode = 0, stdout = ''cache'', stderr = [],
                                  timestamp = ''2024-01-15T10:29:00.000Z''\<rparr>],
                     failedAtStep = - 1\<rparr>\<rparr>"

definition sample_agent :: "nat runAgent" where
  "sample_agent msg conversation w =
     (Inr (sample_plan, conversation @ [UserText ''plan'', ModelContent ''a plan'']), Suc w)"

definition sample_knowledge :: "nat \<Rightarrow> string option thrown" where
  "sample_knowledge w = Inr None"

text \<open>
  A reasoner that always asks for \<open>planRemediation\<close>, a planner that always fails and
  leaves a failure context, and a user who answers the circuit breaker with context
  while the world is younger than 10 steps and dismisses the incident after that. A
  second reasoner always asks for \<open>requestApproval\<close>, and the user rejects the plan.
\<close>

definition sample_failure :: FailureContext where
  "sample_failure =
     \<lparr>fc_type = execution_failed, fc_step = Some ''docker restart cache'',
      fc_reason = Some ''Command failed at step 1'', fc_output = Some ''no such container''\<rparr>"

definition sample_env :: "string \<Rightarrow> nat orchestrator_env" where
  "sample_env pick =
     \<lparr>resolveEscalation =
        (\<lambda>rsn needed w. (if w < 10 then Continue ''the cache needs 2g'' else Dismiss, Suc w)),
      askPlanApproval = (\<lambda>w. (Reject ''restart db as well'', Suc w)),
      generateContent =
        (\<lambda>contents w.
           (Inr \<lparr>modelContent = Some (ModelContent ''thinking''),
                 functionCalls = [\<lparr>call_name = pick, call_reason = ''stuck'',
                                   call_needed_context = ''limits''\<rparr>]\<rparr>, Suc w)),
      imported_handler =
        (\<lambda>name state w.
           (Inr (failure (state\<lparr>failureContext := Some sample_failure\<rparr>) ''Planning failed''),
            Suc w)),
      addFact = (\<lambda>question answer w. w),
      now = sample_clock,
      stringify = (\<lambda>state. ''{}'')\<rparr>"

text \<open>
  An incident during which the knowledge file becomes unreadable: the reasoner asks for
  \<open>analyzeIncident\<close>, \<open>assessFeasibility\<close>, \<open>planRemediation\<close> and \<open>requestApproval\<close>, the
  user rejects the plan, and from then on the reasoner asks for \<open>planRemediation\<close> again
  and again while \<open>loadKnowledge\<close> throws. The handler of \<open>planRemediation\<close> is the one
  modelled above; the world counts the calls of the reasoner and of the planner.
\<close>

definition unreadable_knowledge_env :: "nat orchestrator_env" where
  "unreadable_knowledge_env =
     \<lparr>resolveEscalation = (\<lambda>rsn needed w. (Dismiss, w)),
      askPlanApproval = (\<lambda>w. (Reject ''restart db as well'', w)),
      generateContent =
        (\<lambda>contents w.
           (Inr \<lparr>modelContent = Some (ModelContent ''thinking''),
                 functionCalls =
                   [\<lparr>call_name = (if w = 0 then ''analyzeIncident''
                                    else if w = 1 then ''assessFeasibility''
                                    else if w = 4 then ''requestApproval''
                                    else ''planRemediation''),
                     call_reason = [], call_needed_context = []\<rparr>]\<rparr>, Suc w)),
      imported_handler =
        (\<lambda>name state w.
           if name = ''analyzeIncident''
           then (Inr (success (state\<lparr>incidentGraph := incidentGraph sample_state\<rparr>) None), w)
           else if name = ''assessFeasibility''
           then (Inr (success (state\<lparr>feasibility := feasibility sample_state\<rparr>) None), w)
           else planRemediation sample_agent
                  (\<lambda>w. if w < 5 then Inr None else Inl ''ENOENT: no such file or directory'')
                  ''services: {cache: {image: redis}}'' state w),
      addFact = (\<lambda>question answer w. w),
      now = sample_clock,
      stringify = (\<lambda>state. ''{}'')\<rparr>"

text \<open>Two log lines: an error on \<open>stdout\<close>, and a shutdown notice on \<open>stderr\<close>.\<close>

definition sample_error_event :: LogEvent where
  "sample_error_event =
     \<lparr>ev_container = ''api'', ev_message = ''Error: cache connection refused'',
      ev_stream = Stdout, ev_timestamp = 0\<rparr>"

definition sample_shutdown_event :: LogEvent where
  "sample_shutdown_event =
     \<lparr>ev_container = ''api'', ev_message = ''Server shutdown with error'',
      ev_stream = Stderr, ev_timestamp = 0\<rparr>"

text \<open>A line on \<open>stdout\<close> with a bare upper-case level word.\<close>

definition sample_severe_event :: LogEvent where
  "sample_severe_event =
     \<lparr>ev_container = ''api'', ev_message = ''SEVERE latency'',
      ev_stream = Stdout, ev_timestamp = 0\<rparr>"

section \<open>Properties of the executor\<close>

lemma executeCommands_loop_shape:
  assumes "executeCommands_loop ex clk stps i acc w = (r, w')"
    and "all_success acc" and "length acc = i"
  shows "(failedAtStep r = - 1 \<and> all_success (results r)
            \<and> length (results r) = i + length stps)
       \<or> (int i \<le> failedAtStep r \<and> nat (failedAtStep r) < length (results r)
            \<and> status (results r ! nat (failedAtStep r)) = Failure
            \<and> int (length (results r)) = failedAtStep r + 1
            \<and> all_success (take (nat (failedAtStep r)) (results r))
            \<and> length (results r) \<le> i + length stps)"
  using assms
proof (induction stps arbitrary: i acc w)
  case Nil
  then show ?case by auto
next
  case (Cons s rest)
  obtain c w1 where ex: "ex (action s) w = (c, w1)" by (cases "ex (action s) w")
  show ?case
  proof (cases "cmd_success c")
    case False
    with Cons.prems ex show ?thesis
      by (auto simp: all_success_def nth_append)
  next
    case True
    let ?acc1 = "acc @ [\<lparr>step = action s, status = Success, exitCode = cmd_exitCode c,
                         stdout = cmd_stdout c, stderr = cmd_stderr c, timestamp = clk w1\<rparr>]"
    from Cons.prems(1) ex True
    have run: "executeCommands_loop ex clk rest (Suc i) ?acc1 w1 = (r, w')" by simp
    have "all_success ?acc1" "length ?acc1 = Suc i"
      using Cons.prems(2,3) by (simp_all add: all_success_def)
    from Cons.IH [OF run this] show ?thesis by auto
  qed
qed

lemma executeCommands_loop_steps:
  assumes "executeCommands_loop ex clk stps i acc w = (r, w')"
    and "length acc = i"
  shows "take i (results r) = acc
       \<and> (\<forall>k. i \<le> k \<and> k < length (results r) \<longrightarrow> step (results r ! k) = action (stps ! (k - i)))"
  using assms
proof (induction stps arbitrary: i acc w)
  case Nil
  then show ?case by auto
next
  case (Cons s rest)
  obtain c w1 where ex: "ex (action s) w = (c, w1)" by (cases "ex (action s) w")
  show ?case
  proof (cases "cmd_success c")
    case False
    with Cons.prems ex show ?thesis
      by (auto simp: nth_append)
  next
    case True
    let ?x = "\<lparr>step = action s, status = Success, exitCode = cmd_exitCode c,
                 stdout = cmd_stdout c, stderr = cmd_stderr c, timestamp = clk w1\<rparr>"
    from Cons.prems(1) ex True
    have run: "executeCommands_loop ex clk rest (Suc i) (acc @ [?x]) w1 = (r, w')" by simp
    have len: "length (acc @ [?x]) = Suc i" using Cons.prems(2) by simp
    from Cons.IH [OF run len]
    have tk: "take (Suc i) (results r) = acc @ [?x]"
      and rest: "\<forall>k. Suc i \<le> k \<and> k < length (results r)
                   \<longrightarrow> step (results r ! k) = action (rest ! (k - Suc i))"
      by blast+
    from tk have lenr: "Suc i \<le> length (results r)"
      using len by (metis length_take min.cobounded1 min_def nat_le_linear take_all)
    from tk have "take i (take (Suc i) (results r)) = take i (acc @ [?x])" by simp
    then have tk0: "take i (results r) = acc" using Cons.prems(2) by (simp add: min_def)
    from tk lenr have "results r ! i = (acc @ [?x]) ! i"
      by (metis Suc_le_lessD lessI nth_take)
    then have at_i: "step (results r ! i) = action s"
      using Cons.prems(2) by (simp add: nth_append)
    have "step (results r ! k) = action ((s # rest) ! (k - i))"
      if "i \<le> k" "k < length (results r)" for k
    proof (cases "k = i")
      case True
      then show ?thesis using at_i by simp
    next
      case False
      with that have "Suc i \<le> k" by simp
      with rest that have "step (results r ! k) = action (rest ! (k - Suc i))" by blast
      moreover from \<open>Suc i \<le> k\<close> have "k - i = Suc (k - Suc i)" by simp
      ultimately show ?thesis by simp
    qed
    with tk0 show ?thesis by blast
  qed
qed

lemma executeCommands_loop_prefix:
  assumes "executeCommands_loop ex clk stps i acc w = (r, w')"
    and "length acc = i"
  shows "executeCommands_loop ex clk (take (length (results r) - i) stps) i acc w = (r, w')"
  using assms
proof (induction stps arbitrary: i acc w)
  case Nil
  then show ?case by auto
next
  case (Cons s rest)
  obtain c w1 where ex: "ex (action s) w = (c, w1)" by (cases "ex (action s) w")
  show ?case
  proof (cases "cmd_success c")
    case False
    with Cons.prems ex show ?thesis by auto
  next
    case True
    let ?x = "\<lparr>step = action s, status = Success, exitCode = cmd_exitCode c,
                 stdout = cmd_stdout c, stderr = cmd_stderr c, timestamp = clk w1\<rparr>"
    from Cons.prems(1) ex True
    have run: "executeCommands_loop ex clk rest (Suc i) (acc @ [?x]) w1 = (r, w')" by simp
    have len: "length (acc @ [?x]) = Suc i" using Cons.prems(2) by simp
    from executeCommands_loop_steps [OF run len]
    have "take (Suc i) (results r) = acc @ [?x]" by blast
    then have "Suc i \<le> length (results r)"
      using len by (metis length_take min.cobounded1 min_def nat_le_linear take_all)
    then have "length (results r) - i = Suc (length (results r) - Suc i)" by simp
    with Cons.IH [OF run len] ex True show ?thesis by simp
  qed
qed

lemma executeCommands_shape:
  assumes "executeCommands ex clk stps w = (r, w')"
  shows "(failedAtStep r = - 1 \<longleftrightarrow> (\<forall>x \<in> set (results r). status x = Success))
       \<and> (failedAtStep r \<noteq> - 1 \<longrightarrow>
             0 \<le> failedAtStep r
           \<and> nat (failedAtStep r) < length (results r)
           \<and> status (results r ! nat (failedAtStep r)) = Failure
           \<and> int (length (results r)) = failedAtStep r + 1
           \<and> (\<forall>k < nat (failedAtStep r). status (results r ! k) = Success))
       \<and> (failedAtStep r = - 1 \<longrightarrow> length (results r) = length stps)
       \<and> length (results r) \<le> length stps
       \<and> (\<forall>k < length (results r). step (results r ! k) = action (stps ! k))
       \<and> executeCommands ex clk (take (length (results r)) stps) w = (r, w')
       \<and> (stps = [] \<longrightarrow> r = \<lparr>results = [], failedAtStep = - 1\<rparr> \<and> w' = w)"
proof -
  from assms have run: "executeCommands_loop ex clk stps 0 [] w = (r, w')"
    by (simp add: executeCommands_def)
  have shape:
    "(failedAtStep r = - 1 \<and> all_success (results r) \<and> length (results r) = 0 + length stps)
     \<or> (int 0 \<le> failedAtStep r \<and> nat (failedAtStep r) < length (results r)
          \<and> status (results r ! nat (failedAtStep r)) = Failure
          \<and> int (length (results r)) = failedAtStep r + 1
          \<and> all_success (take (nat (failedAtStep r)) (results r))
          \<and> length (results r) \<le> 0 + length stps)"
    by (rule executeCommands_loop_shape [OF run]) (simp_all add: all_success_def)
  have stepsP: "\<forall>k < length (results r). step (results r ! k) = action (stps ! k)"
    using executeCommands_loop_steps [OF run] by simp
  have prefix: "executeCommands ex clk (take (length (results r)) stps) w = (r, w')"
    using executeCommands_loop_prefix [OF run] by (simp add: executeCommands_def)
  have empty: "stps = [] \<longrightarrow> r = \<lparr>results = [], failedAtStep = - 1\<rparr> \<and> w' = w"
    using run by auto
  from shape show ?thesis
  proof
    assume ok: "failedAtStep r = - 1 \<and> all_success (results r)
                  \<and> length (results r) = 0 + length stps"
    then have "\<forall>x \<in> set (results r). status x = Success"
      by (simp add: all_success_def list_all_iff)
    with ok stepsP prefix empty show ?thesis by simp
  next
    assume bad: "int 0 \<le> failedAtStep r \<and> nat (failedAtStep r) < length (results r)
          \<and> status (results r ! nat (failedAtStep r)) = Failure
          \<and> int (length (results r)) = failedAtStep r + 1
          \<and> all_success (take (nat (failedAtStep r)) (results r))
          \<and> length (results r) \<le> 0 + length stps"
    then have ne: "failedAtStep r \<noteq> - 1" by simp
    from bad have "results r ! nat (failedAtStep r) \<in> set (results r)" by simp
    with bad have notall: "\<not> (\<forall>x \<in> set (results r). status x = Success)"
      by (metis StepStatus.distinct(1))
    from bad have before: "\<forall>k < nat (failedAtStep r). status (results r ! k) = Success"
      by (simp add: all_success_def list_all_length)
    from bad ne notall before stepsP prefix empty show ?thesis by simp
  qed
qed

lemma world_after_Cons:
  "world_after ex (c # cs) w = world_after ex cs (snd (ex c w))"
  by (simp add: world_after_def)

lemma executeCommands_loop_run:
  assumes "executeCommands_loop ex clk stps i acc w = (r, w')"
    and "length acc = i"
  shows "(\<forall>k. i \<le> k \<and> k < length (results r) \<longrightarrow>
            results r ! k = result_of ex clk (action (stps ! (k - i)))
                              (world_after ex (map action (take (k - i) stps)) w))
       \<and> w' = world_after ex (map action (take (length (results r) - i) stps)) w"
  using assms
proof (induction stps arbitrary: i acc w)
  case Nil
  then show ?case by (auto simp: world_after_def)
next
  case (Cons s rest)
  obtain c w1 where ex: "ex (action s) w = (c, w1)" by (cases "ex (action s) w")
  let ?x = "\<lparr>step = action s, status = (if cmd_success c then Success else Failure),
               exitCode = cmd_exitCode c, stdout = cmd_stdout c, stderr = cmd_stderr c,
               timestamp = clk w1\<rparr>"
  have x: "result_of ex clk (action s) w = ?x" by (simp add: result_of_def ex)
  show ?case
  proof (cases "cmd_success c")
    case False
    with Cons.prems ex have r: "r = \<lparr>results = acc @ [?x], failedAtStep = int i\<rparr>" "w' = w1"
      by auto
    have "results r ! k = result_of ex clk (action ((s # rest) ! (k - i)))
                              (world_after ex (map action (take (k - i) (s # rest))) w)"
      if "i \<le> k" "k < length (results r)" for k
    proof -
      from that r Cons.prems(2) have "k = i" by simp
      then show ?thesis using r Cons.prems(2) x by (simp add: nth_append world_after_def)
    qed
    moreover have "w' = world_after ex (map action (take (length (results r) - i) (s # rest))) w"
      using r Cons.prems(2) ex by (simp add: world_after_def)
    ultimately show ?thesis by blast
  next
    case True
    from Cons.prems(1) ex True
    have run: "executeCommands_loop ex clk rest (Suc i) (acc @ [?x]) w1 = (r, w')" by simp
    have len: "length (acc @ [?x]) = Suc i" using Cons.prems(2) by simp
    from Cons.IH [OF run len]
    have ih1: "\<forall>k. Suc i \<le> k \<and> k < length (results r) \<longrightarrow>
            results r ! k = result_of ex clk (action (rest ! (k - Suc i)))
                              (world_after ex (map action (take (k - Suc i) rest)) w1)"
      and ih2: "w' = world_after ex (map action (take (length (results r) - Suc i) rest)) w1"
      by blast+
    from executeCommands_loop_steps [OF run len]
    have tk: "take (Suc i) (results r) = acc @ [?x]" by blast
    then have lenr: "Suc i \<le> length (results r)"
      using len by (metis length_take min.cobounded1 min_def nat_le_linear take_all)
    from tk lenr have "results r ! i = (acc @ [?x]) ! i"
      by (metis Suc_le_lessD lessI nth_take)
    then have at_i: "results r ! i = ?x" using Cons.prems(2) by (simp add: nth_append)
    have w1: "snd (ex (action s) w) = w1" by (simp add: ex)
    have "results r ! k = result_of ex clk (action ((s # rest) ! (k - i)))
                              (world_after ex (map action (take (k - i) (s # rest))) w)"
      if "i \<le> k" "k < length (results r)" for k
    proof (cases "k = i")
      case True
      then show ?thesis using at_i x by (simp add: world_after_def)
    next
      case False
      with that have le: "Suc i \<le> k" by simp
      then have d: "k - i = Suc (k - Suc i)" by simp
      from ih1 le that have "results r ! k = result_of ex clk (action (rest ! (k - Suc i)))
                              (world_after ex (map action (take (k - Suc i) rest)) w1)" by blast
      then show ?thesis unfolding d by (simp add: world_after_Cons w1)
    qed
    moreover have "w' = world_after ex (map action (take (length (results r) - i) (s # rest))) w"
    proof -
      from lenr have d: "length (results r) - i = Suc (length (results r) - Suc i)" by simp
      show ?thesis unfolding d using ih2 by (simp add: world_after_Cons w1)
    qed
    ultimately show ?thesis by blast
  qed
qed

lemma executeCommands_run:
  assumes "executeCommands ex clk stps w = (r, w')"
  shows "(\<forall>k < length (results r).
            results r ! k = result_of ex clk (action (stps ! k))
                              (world_after ex (map action (take k stps)) w))
       \<and> w' = world_after ex (map action (take (length (results r)) stps)) w"
  using executeCommands_loop_run [of ex clk stps 0 "[]" w r w'] assms
  by (simp add: executeCommands_def)

text \<open>
  C2. \<open>executeCommands\<close> runs the commands in order and stops at the first failure: the
  \<open>k\<close>-th result is the record of running the \<open>k\<close>-th input command in the world that the
  commands before it left, a command of the results succeeded exactly when its index is
  not \<open>failedAtStep\<close>, and the world returned is the one left by the commands of the
  results, so no command after the first failure is run. \<open>failedAtStep = -1\<close> exactly when
  every result has status \<open>success\<close>, and then there is a result for every command;
  otherwise \<open>failedAtStep\<close> is the index of the last result, that result has status
  \<open>failure\<close> and all results before it are successes; the \<open>i\<close>-th result carries the
  \<open>i\<close>-th input command; an empty input gives \<open>{results: [], failedAtStep: -1}\<close> and
  leaves the world as it was.
\<close>

theorem executeCommands_contract:
  assumes "executeCommands ex clk stps w = (r, w')"
  shows "(failedAtStep r = - 1 \<longleftrightarrow> (\<forall>x \<in> set (results r). status x = Success))
       \<and> (failedAtStep r \<noteq> - 1 \<longrightarrow>
             0 \<le> failedAtStep r
           \<and> nat (failedAtStep r) < length (results r)
           \<and> status (results r ! nat (failedAtStep r)) = Failure
           \<and> int (length (results r)) = failedAtStep r + 1
           \<and> (\<forall>k < nat (failedAtStep r). status (results r ! k) = Success))
       \<and> (failedAtStep r = - 1 \<longrightarrow> length (results r) = length stps)
       \<and> length (results r) \<le> length stps
       \<and> (\<forall>k < length (results r). step (results r ! k) = action (stps ! k))
       \<and> executeCommands ex clk (take (length (results r)) stps) w = (r, w')
       \<and> (stps = [] \<longrightarrow> r = \<lparr>results = [], failedAtStep = - 1\<rparr> \<and> w' = w)
       \<and> (\<forall>k < length (results r).
             results r ! k = result_of ex clk (action (stps ! k))
                               (world_after ex (map action (take k stps)) w))
       \<and> (\<forall>k < length (results r).
             cmd_success (fst (ex (action (stps ! k))
                                 (world_after ex (map action (take k stps)) w)))
             \<longleftrightarrow> int k \<noteq> failedAtStep r)
       \<and> w' = world_after ex (map action (take (length (results r)) stps)) w"
proof -
  note shape = executeCommands_shape [OF assms]
  note run = executeCommands_run [OF assms]
  from run have res: "\<forall>k < length (results r).
             results r ! k = result_of ex clk (action (stps ! k))
                               (world_after ex (map action (take k stps)) w)"
    and wld: "w' = world_after ex (map action (take (length (results r)) stps)) w"
    by blast+
  have first: "cmd_success (fst (ex (action (stps ! k))
                                 (world_after ex (map action (take k stps)) w)))
             \<longleftrightarrow> int k \<noteq> failedAtStep r" if k: "k < length (results r)" for k
  proof -
    from res k have "status (results r ! k) = Success \<longleftrightarrow>
        cmd_success (fst (ex (action (stps ! k)) (world_after ex (map action (take k stps)) w)))"
      by (simp add: result_of_def)
    moreover have "status (results r ! k) = Success \<longleftrightarrow> int k \<noteq> failedAtStep r"
    proof (cases "failedAtStep r = - 1")
      case True
      with shape have "\<forall>x \<in> set (results r). status x = Success" by blast
      with k have "status (results r ! k) = Success" by simp
      with True show ?thesis by simp
    next
      case False
      with shape have f: "0 \<le> failedAtStep r" "nat (failedAtStep r) < length (results r)"
        "status (results r ! nat (failedAtStep r)) = Failure"
        "int (length (results r)) = failedAtStep r + 1"
        "\<forall>k < nat (failedAtStep r). status (results r ! k) = Success"
        by blast+
      show ?thesis
      proof (cases "int k = failedAtStep r")
        case True
        then have "k = nat (failedAtStep r)" by simp
        with f(3) True show ?thesis by simp
      next
        case False
        with k f(1,4) have "k < nat (failedAtStep r)" by linarith
        with f(5) False show ?thesis by simp
      qed
    qed
    ultimately show ?thesis by simp
  qed
  have first': "\<forall>k < length (results r).
             cmd_success (fst (ex (action (stps ! k))
                                 (world_after ex (map action (take k stps)) w)))
             \<longleftrightarrow> int k \<noteq> failedAtStep r"
    using first by blast
  from shape conjI [OF res conjI [OF first' wld]] show ?thesis by blast
qed

theorem executeCommands_contract_witness:
  "executeCommands sample_exec sample_clock (verification sample_plan) 0
     = (\<lparr>results =
          [\<lparr>step = ''docker inspect cache'', status = Success, exitCode = 0, stdout = ''true'',
            stderr = [], timestamp = ''2024-01-15T10:30:00.000Z''\<rparr>,
           \<lparr>step = ''docker inspect db'', status = Failure, exitCode = 1, stdout = [],
            stderr = ''No such object: db'', timestamp = ''2024-01-15T10:30:00.000Z''\<rparr>],
         failedAtStep = 1\<rparr>, 2)
   \<and> executeCommands sample_exec sample_clock (take 2 (verification sample_plan)) 0
     = executeCommands sample_exec sample_clock (verification sample_plan) 0"
proof -
  let ?r = "\<lparr>results =
          [\<lparr>step = ''docker inspect cache'', status = Success, exitCode = 0, stdout = ''true'',
            stderr = [], timestamp = ''2024-01-15T10:30:00.000Z''\<rparr>,
           \<lparr>step = ''docker inspect db'', status = Failure, exitCode = 1, stdout = [],
            stderr = ''No such object: db'', timestamp = ''2024-01-15T10:30:00.000Z''\<rparr>],
         failedAtStep = 1\<rparr>"
  have run: "executeCommands sample_exec sample_clock (verification sample_plan) 0 = (?r, 2)"
    by (simp add: executeCommands_def sample_exec_def sample_clock_def sample_plan_def
        numeral_2_eq_2)
  from executeCommands_contract [OF run] run show ?thesis by (simp add: numeral_2_eq_2)
qed

section \<open>Properties of the validator\<close>

lemma all_dropWhile_iff: "(\<forall>x \<in> set (dropWhile P xs). P x) \<longleftrightarrow> (\<forall>x \<in> set xs. P x)"
  by (induction xs) auto

lemma trim_empty_iff: "trim s = [] \<longleftrightarrow> (\<forall>c \<in> set s. is_space c)"
  by (simp add: trim_def all_dropWhile_iff)

text \<open>
  C10. A command whose trim is empty (the empty string, or white space only) is rejected
  with the reason \<open>Empty command not allowed\<close>, whatever the known containers are: the
  blocked patterns and the container check play no part.
\<close>

theorem validateCommand_empty:
  "(trim command = [] \<longleftrightarrow> (\<forall>c \<in> set command. is_space c))
   \<and> (trim command = [] \<longrightarrow>
        validateCommand command knownContainers
          = Inl \<lparr>err_command = command, err_reason = ''Empty command not allowed''\<rparr>)"
  by (simp add: trim_empty_iff validateCommand_def)

theorem validateCommand_empty_witness:
  "validateCommand [CHR '' '', CHR 0x09, CHR 0xA0, CHR 0x0A] [''cache'']
     = Inl \<lparr>err_command = [CHR '' '', CHR 0x09, CHR 0xA0, CHR 0x0A],
            err_reason = ''Empty command not allowed''\<rparr>
   \<and> validateCommand [] [''cache'']
     = Inl \<lparr>err_command = [], err_reason = ''Empty command not allowed''\<rparr>"
  using validateCommand_empty [of "[CHR '' '', CHR 0x09, CHR 0xA0, CHR 0x0A]" "[''cache'']"]
    validateCommand_empty [of "[]" "[''cache'']"]
  by (simp add: is_space_def)

section \<open>Properties of the regular expressions\<close>

lemma char_matches_simps [simp]:
  "char_matches False c x \<longleftrightarrow> x = c"
  "char_matches True c x \<longleftrightarrow> canonicalize x = canonicalize c"
  by (simp_all add: char_matches_def)

lemma test_from_split:
  "test_from ci r p s \<longleftrightarrow>
     (\<exists>a b. s = a @ b \<and> rxm ci r (if a = [] then p else Some (last a), b) \<noteq> [])"
proof (induction s arbitrary: p)
  case Nil
  then show ?case by simp
next
  case (Cons x xs)
  show ?case
  proof
    assume "test_from ci r p (x # xs)"
    then consider "rxm ci r (p, x # xs) \<noteq> []" | "test_from ci r (Some x) xs" by auto
    then show "\<exists>a b. x # xs = a @ b \<and> rxm ci r (if a = [] then p else Some (last a), b) \<noteq> []"
    proof cases
      case 1
      then have "x # xs = [] @ (x # xs)
                   \<and> rxm ci r (if [] = ([]::string) then p else Some (last []), x # xs) \<noteq> []"
        by simp
      then show ?thesis by blast
    next
      case 2
      with Cons.IH obtain a b where ab: "xs = a @ b"
        and m: "rxm ci r (if a = [] then Some x else Some (last a), b) \<noteq> []" by blast
      from ab m have "x # xs = (x # a) @ b
                 \<and> rxm ci r (if x # a = [] then p else Some (last (x # a)), b) \<noteq> []"
        by (cases a) auto
      then show ?thesis by blast
    qed
  next
    assume "\<exists>a b. x # xs = a @ b \<and> rxm ci r (if a = [] then p else Some (last a), b) \<noteq> []"
    then obtain a b where ab: "x # xs = a @ b"
      and m: "rxm ci r (if a = [] then p else Some (last a), b) \<noteq> []" by blast
    show "test_from ci r p (x # xs)"
    proof (cases a)
      case Nil
      with ab m show ?thesis by auto
    next
      case (Cons y ys)
      with ab have xs: "xs = ys @ b" and y: "y = x" by simp_all
      from m Cons y have "rxm ci r (if ys = [] then Some x else Some (last ys), b) \<noteq> []"
        by (cases ys) auto
      with xs Cons.IH have "test_from ci r (Some x) xs" by blast
      then show ?thesis by simp
    qed
  qed
qed

lemma rx_test_Lit: "rx_test False (Lit c) s \<longleftrightarrow> c \<in> set s"
proof -
  have "test_from False (Lit c) p s \<longleftrightarrow> c \<in> set s" for p
    by (induction s arbitrary: p) auto
  then show ?thesis by (simp add: rx_test_def)
qed

lemma rxm_lits:
  "rxm False (lits w) (p, s) =
     (if starts_with s w then [(if w = [] then p else Some (last w), drop (length w) s)] else [])"
proof (induction w arbitrary: p s)
  case Nil
  then show ?case by (simp add: lits_def)
next
  case (Cons c cs)
  have l: "lits (c # cs) = Seq (Lit c) (lits cs)" by (simp add: lits_def)
  show ?case
  proof (cases s)
    case Nil
    then show ?thesis by (simp add: l)
  next
    case (Cons x xs)
    then show ?thesis using Cons.IH [of "Some c" xs] by (auto simp: l)
  qed
qed

lemma rx_test_lits: "rx_test False (lits w) s \<longleftrightarrow> str_includes s w"
proof -
  have "test_from False (lits w) p s \<longleftrightarrow> str_includes s w" for p
    by (induction s arbitrary: p) (auto simp: rxm_lits)
  then show ?thesis by (simp add: rx_test_def)
qed

lemma star_states_suffix:
  "(p', s') \<in> set (star_states f p s) \<Longrightarrow> \<exists>u. s = u @ s'"
proof (induction s arbitrary: p)
  case Nil
  then show ?case by simp
next
  case (Cons x xs)
  from Cons.prems consider "(p', s') = (p, x # xs)" | "(p', s') \<in> set (star_states f (Some x) xs)"
    by (auto split: if_splits)
  then show ?case
  proof cases
    case 1
    then show ?thesis by simp
  next
    case 2
    from Cons.IH [OF this] obtain u where "xs = u @ s'" by blast
    then have "x # xs = (x # u) @ s'" by simp
    then show ?thesis by blast
  qed
qed

lemma rxm_suffix:
  "(p', s') \<in> set (rxm ci r (p, s)) \<Longrightarrow> \<exists>u. s = u @ s'"
proof (induction r arbitrary: p s p' s')
  case (Seq a b)
  from Seq.prems obtain q where q: "q \<in> set (rxm ci a (p, s))"
    and r: "(p', s') \<in> set (rxm ci b q)" by auto
  obtain p1 s1 where q1: "q = (p1, s1)" by (cases q)
  from Seq.IH(1) q q1 obtain u where u: "s = u @ s1" by blast
  from Seq.IH(2) r q1 obtain v where v: "s1 = v @ s'" by blast
  from u v have "s = (u @ v) @ s'" by simp
  then show ?case by blast
next
  case (Star f)
  then show ?case by (auto dest: star_states_suffix)
qed (auto split: list.splits if_splits)

lemma rxm_Seq_nonempty:
  "rxm ci (Seq a b) q \<noteq> [] \<longleftrightarrow> (\<exists>q' \<in> set (rxm ci a q). rxm ci b q' \<noteq> [])"
  by (auto simp: concat_eq_Nil_conv)

lemma ascii_upper_None:
  assumes "\<not> is_lower x"
  shows "ascii_upper x = None"
proof -
  have "fst ` set (zip ''abcdefghijklmnopqrstuvwxyz'' ''ABCDEFGHIJKLMNOPQRSTUVWXYZ'')
        = set (map fst (zip ''abcdefghijklmnopqrstuvwxyz'' ''ABCDEFGHIJKLMNOPQRSTUVWXYZ''))"
    by (simp only: set_map)
  also have "map fst (zip ''abcdefghijklmnopqrstuvwxyz'' ''ABCDEFGHIJKLMNOPQRSTUVWXYZ'')
        = ''abcdefghijklmnopqrstuvwxyz''"
    by (rule map_fst_zip) simp
  finally have "x \<notin> fst ` set (zip ''abcdefghijklmnopqrstuvwxyz'' ''ABCDEFGHIJKLMNOPQRSTUVWXYZ'')"
    using assms unfolding is_lower_def by blast
  then show ?thesis unfolding ascii_upper_def map_of_eq_None_iff by assumption
qed

lemma digit7_char_of:
  assumes "128 \<le> n" and "n < (256::nat)"
  shows "digit7 (char_of n)"
proof -
  from assms have "n div 128 = 1" by auto
  then have "bit n 7" by (simp add: bit_iff_odd)
  then show ?thesis by (simp add: char_of_def)
qed

lemma canonicalize_not_lower:
  assumes "\<not> is_lower x"
  shows "canonicalize x = x \<or> digit7 (canonicalize x)"
proof (cases "digit7 x \<and> 224 \<le> (of_char x :: nat) \<and> (of_char x :: nat) \<le> 254
               \<and> (of_char x :: nat) \<noteq> 247")
  case True
  then have "canonicalize x = char_of ((of_char x :: nat) - 32)"
    by (simp add: canonicalize_def ascii_upper_None [OF assms])
  moreover from True have "digit7 (char_of ((of_char x :: nat) - 32))"
    by (intro digit7_char_of) auto
  ultimately show ?thesis by simp
next
  case False
  then have "canonicalize x = x"
    by (auto simp: canonicalize_def ascii_upper_None [OF assms])
  then show ?thesis by simp
qed


lemma canonicalize_d:
  "canonicalize x = canonicalize CHR ''d'' \<longleftrightarrow> x \<in> set ''dD''"
proof -
  have c: "canonicalize CHR ''d'' = CHR ''D''" "canonicalize CHR ''D'' = CHR ''D''"
    by (simp_all add: canonicalize_def ascii_upper_def)
  show ?thesis
  proof (cases "is_lower x")
    case True
    then have "x \<in> {CHR ''a'', CHR ''b'', CHR ''c'', CHR ''d'', CHR ''e'', CHR ''f'',
      CHR ''g'', CHR ''h'', CHR ''i'', CHR ''j'', CHR ''k'', CHR ''l'', CHR ''m'', CHR ''n'',
      CHR ''o'', CHR ''p'', CHR ''q'', CHR ''r'', CHR ''s'', CHR ''t'', CHR ''u'', CHR ''v'',
      CHR ''w'', CHR ''x'', CHR ''y'', CHR ''z''}"
      by (simp add: is_lower_def)
    then show ?thesis
      unfolding c by (elim insertE emptyE; simp add: canonicalize_def ascii_upper_def)
  next
    case False
    then have nl: "x \<noteq> CHR ''d''" by (auto simp: is_lower_def)
    from canonicalize_not_lower [OF False] show ?thesis
      unfolding c using nl c by auto
  qed
qed

lemma canonicalize_o:
  "canonicalize x = canonicalize CHR ''o'' \<longleftrightarrow> x \<in> set ''oO''"
proof -
  have c: "canonicalize CHR ''o'' = CHR ''O''" "canonicalize CHR ''O'' = CHR ''O''"
    by (simp_all add: canonicalize_def ascii_upper_def)
  show ?thesis
  proof (cases "is_lower x")
    case True
    then have "x \<in> {CHR ''a'', CHR ''b'', CHR ''c'', CHR ''d'', CHR ''e'', CHR ''f'',
      CHR ''g'', CHR ''h'', CHR ''i'', CHR ''j'', CHR ''k'', CHR ''l'', CHR ''m'', CHR ''n'',
      CHR ''o'', CHR ''p'', CHR ''q'', CHR ''r'', CHR ''s'', CHR ''t'', CHR ''u'', CHR ''v'',
      CHR ''w'', CHR ''x'', CHR ''y'', CHR ''z''}"
      by (simp add: is_lower_def)
    then show ?thesis
      unfolding c by (elim insertE emptyE; simp add: canonicalize_def ascii_upper_def)
  next
    case False
    then have nl: "x \<noteq> CHR ''o''" by (auto simp: is_lower_def)
    from canonicalize_not_lower [OF False] show ?thesis
      unfolding c using nl c by auto
  qed
qed

lemma canonicalize_c:
  "canonicalize x = canonicalize CHR ''c'' \<longleftrightarrow> x \<in> set ''cC''"
proof -
  have c: "canonicalize CHR ''c'' = CHR ''C''" "canonicalize CHR ''C'' = CHR ''C''"
    by (simp_all add: canonicalize_def ascii_upper_def)
  show ?thesis
  proof (cases "is_lower x")
    case True
    then have "x \<in> {CHR ''a'', CHR ''b'', CHR ''c'', CHR ''d'', CHR ''e'', CHR ''f'',
      CHR ''g'', CHR ''h'', CHR ''i'', CHR ''j'', CHR ''k'', CHR ''l'', CHR ''m'', CHR ''n'',
      CHR ''o'', CHR ''p'', CHR ''q'', CHR ''r'', CHR ''s'', CHR ''t'', CHR ''u'', CHR ''v'',
      CHR ''w'', CHR ''x'', CHR ''y'', CHR ''z''}"
      by (simp add: is_lower_def)
    then show ?thesis
      unfolding c by (elim insertE emptyE; simp add: canonicalize_def ascii_upper_def)
  next
    case False
    then have nl: "x \<noteq> CHR ''c''" by (auto simp: is_lower_def)
    from canonicalize_not_lower [OF False] show ?thesis
      unfolding c using nl c by auto
  qed
qed

lemma canonicalize_k:
  "canonicalize x = canonicalize CHR ''k'' \<longleftrightarrow> x \<in> set ''kK''"
proof -
  have c: "canonicalize CHR ''k'' = CHR ''K''" "canonicalize CHR ''K'' = CHR ''K''"
    by (simp_all add: canonicalize_def ascii_upper_def)
  show ?thesis
  proof (cases "is_lower x")
    case True
    then have "x \<in> {CHR ''a'', CHR ''b'', CHR ''c'', CHR ''d'', CHR ''e'', CHR ''f'',
      CHR ''g'', CHR ''h'', CHR ''i'', CHR ''j'', CHR ''k'', CHR ''l'', CHR ''m'', CHR ''n'',
      CHR ''o'', CHR ''p'', CHR ''q'', CHR ''r'', CHR ''s'', CHR ''t'', CHR ''u'', CHR ''v'',
      CHR ''w'', CHR ''x'', CHR ''y'', CHR ''z''}"
      by (simp add: is_lower_def)
    then show ?thesis
      unfolding c by (elim insertE emptyE; simp add: canonicalize_def ascii_upper_def)
  next
    case False
    then have nl: "x \<noteq> CHR ''k''" by (auto simp: is_lower_def)
    from canonicalize_not_lower [OF False] show ?thesis
      unfolding c using nl c by auto
  qed
qed

lemma canonicalize_e:
  "canonicalize x = canonicalize CHR ''e'' \<longleftrightarrow> x \<in> set ''eE''"
proof -
  have c: "canonicalize CHR ''e'' = CHR ''E''" "canonicalize CHR ''E'' = CHR ''E''"
    by (simp_all add: canonicalize_def ascii_upper_def)
  show ?thesis
  proof (cases "is_lower x")
    case True
    then have "x \<in> {CHR ''a'', CHR ''b'', CHR ''c'', CHR ''d'', CHR ''e'', CHR ''f'',
      CHR ''g'', CHR ''h'', CHR ''i'', CHR ''j'', CHR ''k'', CHR ''l'', CHR ''m'', CHR ''n'',
      CHR ''o'', CHR ''p'', CHR ''q'', CHR ''r'', CHR ''s'', CHR ''t'', CHR ''u'', CHR ''v'',
      CHR ''w'', CHR ''x'', CHR ''y'', CHR ''z''}"
      by (simp add: is_lower_def)
    then show ?thesis
      unfolding c by (elim insertE emptyE; simp add: canonicalize_def ascii_upper_def)
  next
    case False
    then have nl: "x \<noteq> CHR ''e''" by (auto simp: is_lower_def)
    from canonicalize_not_lower [OF False] show ?thesis
      unfolding c using nl c by auto
  qed
qed

lemma canonicalize_r:
  "canonicalize x = canonicalize CHR ''r'' \<longleftrightarrow> x \<in> set ''rR''"
proof -
  have c: "canonicalize CHR ''r'' = CHR ''R''" "canonicalize CHR ''R'' = CHR ''R''"
    by (simp_all add: canonicalize_def ascii_upper_def)
  show ?thesis
  proof (cases "is_lower x")
    case True
    then have "x \<in> {CHR ''a'', CHR ''b'', CHR ''c'', CHR ''d'', CHR ''e'', CHR ''f'',
      CHR ''g'', CHR ''h'', CHR ''i'', CHR ''j'', CHR ''k'', CHR ''l'', CHR ''m'', CHR ''n'',
      CHR ''o'', CHR ''p'', CHR ''q'', CHR ''r'', CHR ''s'', CHR ''t'', CHR ''u'', CHR ''v'',
      CHR ''w'', CHR ''x'', CHR ''y'', CHR ''z''}"
      by (simp add: is_lower_def)
    then show ?thesis
      unfolding c by (elim insertE emptyE; simp add: canonicalize_def ascii_upper_def)
  next
    case False
    then have nl: "x \<noteq> CHR ''r''" by (auto simp: is_lower_def)
    from canonicalize_not_lower [OF False] show ?thesis
      unfolding c using nl c by auto
  qed
qed

lemma test_from_Bol_later: "test_from ci (Seq Bol r) (Some x) s = False"
  by (induction s arbitrary: x) auto

lemma rx_test_Bol: "rx_test ci (Seq Bol r) s \<longleftrightarrow> rxm ci r (None, s) \<noteq> []"
  by (cases s) (auto simp: rx_test_def test_from_Bol_later)

lemma docker_prefix:
  "rxm True (Seq (lits ''docker'') (Seq (Cls is_space) Eps)) (p, s) \<noteq> [] \<longleftrightarrow> starts_with_docker s"
  by (cases s rule: starts_with_docker.cases)
    (simp_all add: lits_def canonicalize_d canonicalize_o canonicalize_c canonicalize_k
      canonicalize_e canonicalize_r)

lemma rx_test_start_docker: "rx_test True rx_start_docker t \<longleftrightarrow> \<not> starts_with_docker t"
proof -
  have "rx_test True rx_start_docker t
          \<longleftrightarrow> rxm True (Seq (lits ''docker'') (Seq (Cls is_space) Eps)) (None, t) = []"
    unfolding rx_start_docker_def seqs.simps rx_test_Bol by simp
  with docker_prefix [of None t] show ?thesis by blast
qed

lemma star_states_position:
  "(p', s') \<in> set (star_states f p s) \<Longrightarrow>
     \<exists>u. s = u @ s' \<and> p' = (if u = [] then p else Some (last u)) \<and> (\<forall>c \<in> set u. f c)"
proof (induction s arbitrary: p)
  case Nil
  then show ?case by simp
next
  case (Cons x xs)
  from Cons.prems consider "(p', s') = (p, x # xs)"
    | "f x" "(p', s') \<in> set (star_states f (Some x) xs)"
    by (auto split: if_splits)
  then show ?case
  proof cases
    case 1
    then show ?thesis by simp
  next
    case 2
    from Cons.IH [OF 2(2)] obtain u where u: "xs = u @ s'"
      "p' = (if u = [] then Some x else Some (last u))" "\<forall>c \<in> set u. f c" by blast
    with 2(1) have "x # xs = (x # u) @ s' \<and> p' = (if x # u = [] then p else Some (last (x # u)))
        \<and> (\<forall>c \<in> set (x # u). f c)" by simp
    then show ?thesis by blast
  qed
qed

lemma rxm_position:
  "(p', s') \<in> set (rxm ci r (p, s)) \<Longrightarrow>
     \<exists>u. s = u @ s' \<and> p' = (if u = [] then p else Some (last u))"
proof (induction r arbitrary: p s p' s')
  case (Seq a b)
  from Seq.prems obtain q where q: "q \<in> set (rxm ci a (p, s))"
    and r: "(p', s') \<in> set (rxm ci b q)" by auto
  obtain p1 s1 where q1: "q = (p1, s1)" by (cases q)
  from Seq.IH(1) q q1 obtain u where u: "s = u @ s1" "p1 = (if u = [] then p else Some (last u))"
    by blast
  from Seq.IH(2) r q1 obtain v where v: "s1 = v @ s'" "p' = (if v = [] then p1 else Some (last v))"
    by blast
  from u v have "s = (u @ v) @ s' \<and> p' = (if u @ v = [] then p else Some (last (u @ v)))"
    by simp
  then show ?case by blast
next
  case (Star f)
  from star_states_position [of p' s' f p s] Star.prems show ?case by auto
next
  case (Lit c)
  then obtain x where "s = [x] @ s'" "p' = Some x" by (auto split: list.splits if_splits)
  then have "s = [x] @ s' \<and> p' = (if [x] = [] then p else Some (last [x]))" by simp
  then show ?case by blast
next
  case (Cls f)
  then obtain x where "s = [x] @ s'" "p' = Some x" by (auto split: list.splits if_splits)
  then have "s = [x] @ s' \<and> p' = (if [x] = [] then p else Some (last [x]))" by simp
  then show ?case by blast
next
  case Eps
  then have "s = [] @ s' \<and> p' = (if [] = ([]::string) then p else Some (last []))" by simp
  then show ?case by blast
next
  case Bol
  then have "s = [] @ s' \<and> p' = (if [] = ([]::string) then p else Some (last []))"
    by (simp split: if_splits)
  then show ?case by blast
next
  case WordB
  then have "s = [] @ s' \<and> p' = (if [] = ([]::string) then p else Some (last []))"
    by (simp split: if_splits)
  then show ?case by blast
next
  case (NotAhead a)
  then have "s = [] @ s' \<and> p' = (if [] = ([]::string) then p else Some (last []))"
    by (simp split: if_splits)
  then show ?case by blast
next
  case (Alt a b)
  from Alt.prems have "(p', s') \<in> set (rxm ci a (p, s)) \<or> (p', s') \<in> set (rxm ci b (p, s))"
    by simp
  with Alt.IH show ?case by blast
next
  case (Opt a)
  from Opt.prems have "(p', s') \<in> set (rxm ci a (p, s)) \<or> (p', s') = (p, s)" by auto
  then show ?case
  proof
    assume "(p', s') \<in> set (rxm ci a (p, s))"
    with Opt.IH show ?thesis by blast
  next
    assume "(p', s') = (p, s)"
    then have "s = [] @ s' \<and> p' = (if [] = ([]::string) then p else Some (last []))" by simp
    then show ?thesis by blast
  qed
qed

lemma rxm_Plus_position:
  assumes "(p', s') \<in> set (rxm ci (Plus f) (p, s))"
  shows "\<exists>u. u \<noteq> [] \<and> s = u @ s' \<and> p' = Some (last u) \<and> (\<forall>c \<in> set u. f c)"
proof -
  from assms obtain x xs where s: "s = x # xs" and fx: "f x"
    and st: "(p', s') \<in> set (star_states f (Some x) xs)"
    by (auto simp: Plus_def split: list.splits if_splits)
  from star_states_position [OF st] obtain u where u: "xs = u @ s'"
    "p' = (if u = [] then Some x else Some (last u))" "\<forall>c \<in> set u. f c" by blast
  with s fx have "x # u \<noteq> [] \<and> s = (x # u) @ s' \<and> p' = Some (last (x # u))
      \<and> (\<forall>c \<in> set (x # u). f c)" by simp
  then show ?thesis by blast
qed

text \<open>A match of a sequence holds a match of each of its literals, and of each of its
  initial parts.\<close>

lemma seqs_literal:
  assumes "rxm ci (seqs (pre @ Lit c # post)) (p, s) \<noteq> []"
  shows "\<exists>x \<in> set s. char_matches ci c x"
  using assms
proof (induction pre arbitrary: p s)
  case Nil
  then show ?case by (cases s) (auto split: if_splits simp del: char_matches_simps)
next
  case (Cons a pre)
  from Cons.prems obtain q where q: "q \<in> set (rxm ci a (p, s))"
    and m: "rxm ci (seqs (pre @ Lit c # post)) q \<noteq> []"
    by (auto simp: concat_eq_Nil_conv)
  obtain p1 s1 where q1: "q = (p1, s1)" by (cases q)
  from Cons.IH [of p1 s1] m q1
  have "\<exists>x \<in> set s1. char_matches ci c x" by simp
  moreover from rxm_position q q1 obtain u where "s = u @ s1" by blast
  ultimately show ?case by auto
qed

lemma seqs_initial:
  assumes "rxm ci (seqs (rs @ post)) q \<noteq> []"
  shows "rxm ci (seqs rs) q \<noteq> []"
  using assms
proof (induction rs arbitrary: q)
  case Nil
  then show ?case by simp
next
  case (Cons a rs)
  from Cons.prems obtain q' where "q' \<in> set (rxm ci a q)" "rxm ci (seqs (rs @ post)) q' \<noteq> []"
    by (auto simp: concat_eq_Nil_conv)
  with Cons.IH [of q'] show ?case by (auto simp: concat_eq_Nil_conv)
qed

lemma rx_test_mono:
  assumes "\<And>q. rxm ci r q \<noteq> [] \<Longrightarrow> rxm ci' r' q \<noteq> []"
    and "rx_test ci r s"
  shows "rx_test ci' r' s"
  using assms unfolding rx_test_def test_from_split by blast

lemma rx_test_seqs_literal:
  assumes "rx_test ci (seqs (pre @ Lit c # post)) s"
  shows "\<exists>x \<in> set s. char_matches ci c x"
proof -
  from assms obtain a b p where s: "s = a @ b"
    and "rxm ci (seqs (pre @ Lit c # post)) (p, b) \<noteq> []"
    unfolding rx_test_def test_from_split by blast
  from seqs_literal [OF this(2)] s show ?thesis by auto
qed

lemma canonicalize_pipe: "canonicalize x = canonicalize CHR ''|'' \<longleftrightarrow> x = CHR ''|''"
proof -
  have c: "canonicalize CHR ''|'' = CHR ''|''"
    by (simp add: canonicalize_def ascii_upper_def)
  show ?thesis
  proof (cases "is_lower x")
    case True
    then have "x \<in> {CHR ''a'', CHR ''b'', CHR ''c'', CHR ''d'', CHR ''e'', CHR ''f'',
      CHR ''g'', CHR ''h'', CHR ''i'', CHR ''j'', CHR ''k'', CHR ''l'', CHR ''m'', CHR ''n'',
      CHR ''o'', CHR ''p'', CHR ''q'', CHR ''r'', CHR ''s'', CHR ''t'', CHR ''u'', CHR ''v'',
      CHR ''w'', CHR ''x'', CHR ''y'', CHR ''z''}"
      by (simp add: is_lower_def)
    then show ?thesis
      unfolding c by (elim insertE emptyE; simp add: canonicalize_def ascii_upper_def)
  next
    case False
    from canonicalize_not_lower [OF False] show ?thesis
      unfolding c using c by auto
  qed
qed

lemma curl_pipe_has_pipe: "rx_test True rx_curl_pipe t \<Longrightarrow> CHR ''|'' \<in> set t"
  using rx_test_seqs_literal [of True "[lits ''curl'', Plus is_space, Star is_dot]" "CHR ''|''"
      "[Star is_space, Alt (lits ''bash'') (lits ''sh'')]" t]
  by (simp add: rx_curl_pipe_def canonicalize_pipe)

lemma wget_pipe_has_pipe: "rx_test True rx_wget_pipe t \<Longrightarrow> CHR ''|'' \<in> set t"
  using rx_test_seqs_literal [of True "[lits ''wget'', Plus is_space, Star is_dot]" "CHR ''|''"
      "[Star is_space, Alt (lits ''bash'') (lits ''sh'')]" t]
  by (simp add: rx_wget_pipe_def canonicalize_pipe)

lemma dev_sd_has_redirect: "rx_test False rx_dev_sd t \<Longrightarrow> CHR ''>'' \<in> set t"
  using rx_test_seqs_literal [of False "[]" "CHR ''>''"
      "[Star is_space, lits ''/dev/sd'', Cls is_lower]" t]
  by (simp add: rx_dev_sd_def)

lemma rm_root_star_is_rm_root: "rx_test False rx_rm_root_star t \<Longrightarrow> rx_test False rx_rm_root t"
proof (rule rx_test_mono)
  fix q
  assume "rxm False rx_rm_root_star q \<noteq> []"
  then have "rxm False (seqs ([lits ''rm'', Plus is_space, lits ''-rf'', Plus is_space,
                Lit CHR ''/''] @ [Lit CHR ''*''])) q \<noteq> []"
    by (simp add: rx_rm_root_star_def)
  from seqs_initial [OF this] show "rxm False rx_rm_root q \<noteq> []"
    by (simp add: rx_rm_root_def)
qed

lemma or_or_has_pipe: "rx_test False (lits ''||'') t \<Longrightarrow> CHR ''|'' \<in> set t"
  using rx_test_seqs_literal [of False "[]" "CHR ''|''" "[Lit CHR ''|'']" t]
  by (simp add: lits_def)

lemma starts_with_iff: "starts_with s k \<longleftrightarrow> (\<exists>b. s = k @ b)"
  by (induction s k rule: starts_with.induct) auto

lemma space_not_word: "is_space c \<Longrightarrow> \<not> is_word c"
  unfolding is_space_def
  by (elim insertE emptyE | simp only: list.set)+
    (simp_all add: is_word_def is_upper_def is_lower_def is_digit_def)

lemma dd_is_assignment:
  assumes "rx_test False rx_dd t"
  shows "rx_test False rx_assignment t"
proof -
  have dd: "rx_dd = Seq (lits ''dd'') (Seq (Plus is_space) (Seq (lits ''if='') Eps))"
    by (simp add: rx_dd_def)
  from assms obtain a b where t: "t = a @ b"
    and m0: "rxm False rx_dd (if a = [] then None else Some (last a), b) \<noteq> []"
    unfolding rx_test_def test_from_split by blast
  define p0 where "p0 = (if a = [] then None else Some (last a))"
  from m0 have m: "rxm False (Seq (lits ''dd'') (Seq (Plus is_space) (Seq (lits ''if='') Eps)))
                     (p0, b) \<noteq> []"
    unfolding dd p0_def .
  from m obtain q1 where q1: "q1 \<in> set (rxm False (lits ''dd'') (p0, b))"
    and m1: "rxm False (Seq (Plus is_space) (Seq (lits ''if='') Eps)) q1 \<noteq> []"
    unfolding rxm_Seq_nonempty by blast
  obtain p1 s1 where q1': "q1 = (p1, s1)" by (cases q1)
  from rxm_position [of p1 s1 False "lits ''dd''" p0 b] q1 q1'
  obtain u1 where u1: "b = u1 @ s1" by blast
  from m1 obtain q2 where q2: "q2 \<in> set (rxm False (Plus is_space) q1)"
    and m2: "rxm False (Seq (lits ''if='') Eps) q2 \<noteq> []"
    unfolding rxm_Seq_nonempty by blast
  obtain p2 s2 where q2': "q2 = (p2, s2)" by (cases q2)
  from rxm_Plus_position [of p2 s2 False is_space p1 s1] q2 q1' q2'
  obtain u where u: "u \<noteq> []" "s1 = u @ s2" "p2 = Some (last u)" "\<forall>c \<in> set u. is_space c"
    by blast
  from m2 q2' have "starts_with s2 ''if=''"
    by (simp add: rxm_lits split: if_splits)
  then obtain rest where s2: "s2 = ''if='' @ rest" unfolding starts_with_iff by blast
  from u have sp: "is_space (last u)" by simp
  then have "\<not> is_word (last u)" by (rule space_not_word)
  then have wb: "\<not> word_before (Some (last u))" by (simp add: word_before_def)
  have wa: "word_after (''if='' @ rest)"
    by (simp add: word_after_def is_word_def is_lower_def)
  have w: "rxm False WordB (Some (last u), ''if='' @ rest) = [(Some (last u), ''if='' @ rest)]"
    using wa wb by simp
  have c: "rxm False (Seq (Cls (\<lambda>c. is_lower c \<or> is_upper c \<or> c = CHR ''_''))
                 (Seq (Star (\<lambda>c. is_lower c \<or> is_upper c \<or> is_digit c \<or> c = CHR ''_''))
                    (Seq (Lit CHR ''='') Eps)))
             (Some (last u), ''if='' @ rest) \<noteq> []"
    by (simp add: is_lower_def is_upper_def is_digit_def)
  have asg: "rxm False rx_assignment (Some (last u), ''if='' @ rest) \<noteq> []"
    unfolding rx_assignment_def seqs.simps rxm.simps(4) [of False WordB] w using c by simp
  have t': "t = (a @ u1 @ u) @ s2" using t u1 u(2) by simp
  have p': "(if a @ u1 @ u = [] then None else Some (last (a @ u1 @ u))) = Some (last u)"
    using u(1) by simp
  have "\<exists>a' b'. t = a' @ b'
          \<and> rxm False rx_assignment (if a' = [] then None else Some (last a'), b') \<noteq> []"
  proof (intro exI conjI)
    show "t = (a @ u1 @ u) @ s2" by (rule t')
    show "rxm False rx_assignment
            (if a @ u1 @ u = [] then None else Some (last (a @ u1 @ u)), s2) \<noteq> []"
      unfolding p' s2 by (rule asg)
  qed
  then show ?thesis unfolding rx_test_def test_from_split .
qed

lemma rxm_mkfs: "rxm False rx_mkfs (p, s) \<noteq> [] \<longleftrightarrow> starts_with s ''mkfs''"
  by (simp add: rx_mkfs_def rxm_lits)

lemma rx_test_mkfs: "rx_test False rx_mkfs s \<longleftrightarrow> str_includes s ''mkfs''"
proof -
  have "test_from False rx_mkfs p s \<longleftrightarrow> str_includes s ''mkfs''" for p
  proof (induction s arbitrary: p)
    case Nil
    show ?case using rxm_mkfs [of p "[]"] by simp
  next
    case (Cons x xs)
    show ?case using rxm_mkfs [of p "x # xs"] Cons.IH by simp
  qed
  then show ?thesis by (simp add: rx_test_def)
qed

lemma first_blocked_None:
  "first_blocked ps t = None \<longleftrightarrow> (\<forall>x \<in> set ps. \<not> rx_test (fst (snd x)) (fst x) t)"
  by (induction ps t rule: first_blocked.induct) auto

lemma first_blocked_first:
  assumes "\<forall>x \<in> set pre. \<not> rx_test (fst (snd x)) (fst x) t" and "rx_test ci p t"
  shows "first_blocked (pre @ (p, ci, r) # post) t = Some r"
  using assms by (induction pre) auto

lemma first_blocked_reason:
  "first_blocked ps t = Some r \<Longrightarrow> r \<in> set (map (\<lambda>x. snd (snd x)) ps)"
  by (induction ps t rule: first_blocked.induct) (auto split: if_splits)

text \<open>The \<open>i\<close> flag on a literal below U+0080: the same letter, in either case.\<close>

lemma ascii_lower_None:
  assumes "\<not> is_upper x"
  shows "ascii_lower x = None"
proof -
  have "fst ` set (zip ''ABCDEFGHIJKLMNOPQRSTUVWXYZ'' ''abcdefghijklmnopqrstuvwxyz'')
        = set (map fst (zip ''ABCDEFGHIJKLMNOPQRSTUVWXYZ'' ''abcdefghijklmnopqrstuvwxyz''))"
    by (simp only: set_map)
  also have "map fst (zip ''ABCDEFGHIJKLMNOPQRSTUVWXYZ'' ''abcdefghijklmnopqrstuvwxyz'')
        = ''ABCDEFGHIJKLMNOPQRSTUVWXYZ''"
    by (rule map_fst_zip) simp
  finally have "x \<notin> fst ` set (zip ''ABCDEFGHIJKLMNOPQRSTUVWXYZ'' ''abcdefghijklmnopqrstuvwxyz'')"
    using assms unfolding is_upper_def by blast
  then show ?thesis unfolding ascii_lower_def map_of_eq_None_iff by assumption
qed

lemma ascii_lower_Some:
  "ascii_lower x = Some y \<longleftrightarrow>
     (x, y) \<in> set (zip ''ABCDEFGHIJKLMNOPQRSTUVWXYZ'' ''abcdefghijklmnopqrstuvwxyz'')"
proof -
  have "map fst (zip ''ABCDEFGHIJKLMNOPQRSTUVWXYZ'' ''abcdefghijklmnopqrstuvwxyz'')
        = ''ABCDEFGHIJKLMNOPQRSTUVWXYZ''"
    by (rule map_fst_zip) simp
  moreover have "distinct ''ABCDEFGHIJKLMNOPQRSTUVWXYZ''" by simp
  ultimately
  have "distinct (map fst (zip ''ABCDEFGHIJKLMNOPQRSTUVWXYZ'' ''abcdefghijklmnopqrstuvwxyz''))"
    by (simp only:)
  then show ?thesis unfolding ascii_lower_def by (rule map_of_eq_Some_iff)
qed

lemma ascii_upper_Some:
  "ascii_upper x = Some y \<longleftrightarrow>
     (x, y) \<in> set (zip ''abcdefghijklmnopqrstuvwxyz'' ''ABCDEFGHIJKLMNOPQRSTUVWXYZ'')"
proof -
  have "map fst (zip ''abcdefghijklmnopqrstuvwxyz'' ''ABCDEFGHIJKLMNOPQRSTUVWXYZ'')
        = ''abcdefghijklmnopqrstuvwxyz''"
    by (rule map_fst_zip) simp
  moreover have "distinct ''abcdefghijklmnopqrstuvwxyz''" by simp
  ultimately
  have "distinct (map fst (zip ''abcdefghijklmnopqrstuvwxyz'' ''ABCDEFGHIJKLMNOPQRSTUVWXYZ''))"
    by (simp only:)
  then show ?thesis unfolding ascii_upper_def by (rule map_of_eq_Some_iff)
qed

lemma zip_swap: "(x, y) \<in> set (zip xs ys) \<longleftrightarrow> (y, x) \<in> set (zip ys xs)"
  by (auto simp: in_set_zip)

lemma ascii_dual: "ascii_lower u = Some x \<longleftrightarrow> ascii_upper x = Some u"
  unfolding ascii_lower_Some ascii_upper_Some by (rule zip_swap)

lemma ascii_upper_range:
  assumes "ascii_upper x = Some u"
  shows "is_lower x" and "is_upper u"
proof -
  from assms have m: "(x, u) \<in> set (zip ''abcdefghijklmnopqrstuvwxyz'' ''ABCDEFGHIJKLMNOPQRSTUVWXYZ'')"
    unfolding ascii_upper_Some .
  from set_zip_leftD [OF m] show "is_lower x" unfolding is_lower_def .
  from set_zip_rightD [OF m] show "is_upper u" unfolding is_upper_def .
qed

lemma upper_not_lower: "is_upper c \<Longrightarrow> \<not> is_lower c"
  unfolding is_upper_def
  by (elim insertE emptyE | simp only: list.set)+ (simp_all add: is_lower_def)

lemma letter_not_digit7: "is_upper c \<or> is_lower c \<Longrightarrow> \<not> digit7 c"
  by (auto simp: is_upper_def is_lower_def)

lemma ascii_upper_inj:
  assumes "ascii_upper x = Some u" and "ascii_upper x' = Some u"
  shows "x = x'"
  using assms unfolding ascii_dual [symmetric] by simp

lemma canonicalize_plain:
  assumes "\<not> is_lower x" and "\<not> digit7 x"
  shows "canonicalize x = x"
  using assms by (simp add: canonicalize_def ascii_upper_None)

lemma canonicalize_eq_plain:
  assumes nl: "\<not> is_lower x" and y: "\<not> digit7 y"
  shows "canonicalize x = y \<longleftrightarrow> x = y"
proof
  assume c: "canonicalize x = y"
  from canonicalize_not_lower [OF nl] c y show "x = y" by auto
next
  assume "x = y"
  with nl y show "canonicalize x = y" by (simp add: canonicalize_plain)
qed

lemma same_letter_iff:
  "same_letter x y \<longleftrightarrow> x = y \<or> ascii_lower x = Some y \<or> ascii_upper x = Some y"
  unfolding same_letter_def ascii_lower_Some ascii_upper_Some
  using zip_swap [of y x "''ABCDEFGHIJKLMNOPQRSTUVWXYZ''" "''abcdefghijklmnopqrstuvwxyz''"]
  by simp

lemma ascii_upper_None_iff: "ascii_upper x = None \<longleftrightarrow> \<not> is_lower x"
proof -
  have "fst ` set (zip ''abcdefghijklmnopqrstuvwxyz'' ''ABCDEFGHIJKLMNOPQRSTUVWXYZ'')
        = set (map fst (zip ''abcdefghijklmnopqrstuvwxyz'' ''ABCDEFGHIJKLMNOPQRSTUVWXYZ''))"
    by (simp only: set_map)
  also have "map fst (zip ''abcdefghijklmnopqrstuvwxyz'' ''ABCDEFGHIJKLMNOPQRSTUVWXYZ'')
        = ''abcdefghijklmnopqrstuvwxyz''"
    by (rule map_fst_zip) simp
  finally show ?thesis unfolding ascii_upper_def map_of_eq_None_iff is_lower_def by simp
qed

lemma canonicalize_same_letter:
  assumes y: "\<not> digit7 y"
  shows "canonicalize x = canonicalize y \<longleftrightarrow> same_letter x y"
proof (cases "ascii_upper y")
  case (Some Y)
  then have cy: "canonicalize y = Y" by (simp add: canonicalize_def)
  from ascii_upper_range [OF Some] have ly: "is_lower y" and uY: "is_upper Y" by blast+
  from uY have nlY: "\<not> is_lower Y" by (rule upper_not_lower)
  from uY have ndY: "\<not> digit7 Y" using letter_not_digit7 by blast
  have r1: "ascii_upper x \<noteq> Some y"
  proof
    assume "ascii_upper x = Some y"
    from ascii_upper_range(2) [OF this] ly show False using upper_not_lower by blast
  qed
  have r2: "ascii_lower x = Some y \<longleftrightarrow> x = Y"
    unfolding ascii_dual using Some by auto
  have "canonicalize x = Y \<longleftrightarrow> x = y \<or> x = Y"
  proof (cases "ascii_upper x")
    case None
    then have nl: "\<not> is_lower x" unfolding ascii_upper_None_iff .
    with ly have "x \<noteq> y" by auto
    with canonicalize_eq_plain [OF nl ndY] show ?thesis by simp
  next
    case sx: (Some X)
    then have cx: "canonicalize x = X" by (simp add: canonicalize_def)
    from ascii_upper_range(1) [OF sx] nlY have "x \<noteq> Y" by auto
    moreover have "X = Y \<longleftrightarrow> x = y"
      using sx Some ascii_upper_inj by auto
    ultimately show ?thesis unfolding cx by simp
  qed
  then show ?thesis unfolding cy same_letter_iff r2 using r1 by simp
next
  case None
  then have nly: "\<not> is_lower y" unfolding ascii_upper_None_iff .
  from canonicalize_plain [OF nly y] have cy: "canonicalize y = y" .
  have r1: "ascii_lower x \<noteq> Some y"
    unfolding ascii_dual using None by simp
  have "canonicalize x = y \<longleftrightarrow> x = y \<or> ascii_upper x = Some y"
  proof (cases "ascii_upper x")
    case (Some X)
    then have cx: "canonicalize x = X" by (simp add: canonicalize_def)
    from ascii_upper_range(1) [OF Some] nly have "x \<noteq> y" by auto
    then show ?thesis unfolding cx Some by simp
  next
    case nx: None
    then have nl: "\<not> is_lower x" unfolding ascii_upper_None_iff .
    from canonicalize_eq_plain [OF nl y] show ?thesis unfolding nx by simp
  qed
  then show ?thesis unfolding cy same_letter_iff using r1 by auto
qed

lemma char_matches_same_letter:
  "\<not> digit7 c \<Longrightarrow> char_matches True c x \<longleftrightarrow> same_letter x c"
  by (simp add: canonicalize_same_letter)

section \<open>Properties of the decision table of the validator\<close>

lemma blocked_iff: "first_blocked BLOCKED_PATTERNS t = None \<longleftrightarrow> \<not> blocked t"
proof -
  have "first_blocked BLOCKED_PATTERNS t = None \<longleftrightarrow>
      \<not> (\<not> starts_with_docker t
   \<or> rx_test True rx_sh_c t \<or> rx_test True rx_bash_c t
   \<or> CHR ''|'' \<in> set t \<or> CHR ''>'' \<in> set t \<or> CHR ''<'' \<in> set t
   \<or> str_includes t ''$('' \<or> CHR 0x60 \<in> set t
   \<or> str_includes t ''&&'' \<or> rx_test False (lits ''||'') t \<or> CHR '';'' \<in> set t
   \<or> rx_test False rx_assignment t
   \<or> CHR ''('' \<in> set t \<or> CHR '')'' \<in> set t
   \<or> rx_test False rx_rm_root t \<or> rx_test False rx_rm_root_star t
   \<or> rx_test False rx_dd t
   \<or> str_includes t ''mkfs''
   \<or> rx_test False rx_dev_sd t \<or> rx_test True rx_curl_pipe t \<or> rx_test True rx_wget_pipe t)"
    unfolding first_blocked_None BLOCKED_PATTERNS_def
    by (simp add: rx_test_start_docker rx_test_Lit rx_test_lits rx_test_mkfs)
  also have "\<dots> \<longleftrightarrow> \<not> blocked t"
    using curl_pipe_has_pipe [of t] wget_pipe_has_pipe [of t] dev_sd_has_redirect [of t]
      rm_root_star_is_rm_root [of t] or_or_has_pipe [of t] dd_is_assignment [of t]
    unfolding blocked_def by blast
  finally show ?thesis .
qed

lemma first_blocked_table: "first_blocked BLOCKED_PATTERNS t = table_reason t"
proof -
  have s1: "\<not> str_includes t ''||''" if "CHR ''|'' \<notin> set t"
    using that or_or_has_pipe [of t] unfolding rx_test_lits by blast
  have s2: "\<not> rx_test False rx_rm_root_star t" if "\<not> rx_test False rx_rm_root t"
    using that rm_root_star_is_rm_root [of t] by blast
  have s3: "\<not> rx_test False rx_dd t" if "\<not> rx_test False rx_assignment t"
    using that dd_is_assignment [of t] by blast
  have s4: "\<not> rx_test False rx_dev_sd t" if "CHR ''>'' \<notin> set t"
    using that dev_sd_has_redirect [of t] by blast
  have s5: "\<not> rx_test True rx_curl_pipe t" "\<not> rx_test True rx_wget_pipe t"
    if "CHR ''|'' \<notin> set t"
    using that curl_pipe_has_pipe [of t] wget_pipe_has_pipe [of t] by blast+
  show ?thesis
    unfolding BLOCKED_PATTERNS_def table_reason_def first_blocked.simps
      rx_test_start_docker rx_test_Lit rx_test_lits rx_test_mkfs
    by (simp add: s1 s2 s3 s4 s5)
qed

lemma blocked_table: "blocked t \<longleftrightarrow> table_reason t \<noteq> None"
  using blocked_iff [of t] unfolding first_blocked_table by auto

lemma references_iff:
  "references t name \<longleftrightarrow>
     (\<exists>a b. t = a @ name @ b
        \<and> word_before (char_before a) \<noteq> word_after (name @ b)
        \<and> word_before (char_before (a @ name)) \<noteq> word_after b)"
proof
  assume "references t name"
  then obtain a b' where t: "t = a @ b'"
    and m: "rxm False (container_pattern name) (if a = [] then None else Some (last a), b') \<noteq> []"
    unfolding references_def rx_test_def test_from_split by blast
  let ?p = "if a = [] then None else Some (last a)"
  from m have wb: "word_before ?p \<noteq> word_after b'"
    by (auto simp: container_pattern_def split: if_splits)
  with m have sw: "starts_with b' name"
    by (auto simp: container_pattern_def rxm_lits split: if_splits)
  then obtain b where b: "b' = name @ b" unfolding starts_with_iff by blast
  from m wb sw b
  have "word_before (if name = [] then ?p else Some (last name)) \<noteq> word_after b"
    by (auto simp: container_pattern_def rxm_lits split: if_splits)
  moreover have "(if name = [] then ?p else Some (last name)) = char_before (a @ name)"
    by (simp add: char_before_def)
  ultimately have "word_before (char_before (a @ name)) \<noteq> word_after b" by simp
  with t b wb show "\<exists>a b. t = a @ name @ b
        \<and> word_before (char_before a) \<noteq> word_after (name @ b)
        \<and> word_before (char_before (a @ name)) \<noteq> word_after b"
    unfolding char_before_def by blast
next
  assume "\<exists>a b. t = a @ name @ b
        \<and> word_before (char_before a) \<noteq> word_after (name @ b)
        \<and> word_before (char_before (a @ name)) \<noteq> word_after b"
  then obtain a b where t: "t = a @ (name @ b)"
    and w1: "word_before (char_before a) \<noteq> word_after (name @ b)"
    and w2: "word_before (char_before (a @ name)) \<noteq> word_after b" by auto
  let ?p = "if a = [] then None else Some (last a)"
  have sw: "starts_with (name @ b) name" unfolding starts_with_iff by blast
  have p: "(if name = [] then ?p else Some (last name)) = char_before (a @ name)"
    by (simp add: char_before_def)
  have "rxm False (container_pattern name) (?p, name @ b) \<noteq> []"
    using w1 w2 sw unfolding p [symmetric]
    by (simp add: container_pattern_def rxm_lits char_before_def)
  with t show "references t name"
    unfolding references_def rx_test_def test_from_split by blast
qed

lemma findTargetContainer_loop_filter:
  "findTargetContainer_loop t K found count
     = (if filter (references t) K = [] then found else Some (last (filter (references t) K)),
        count + length (filter (references t) K))"
  by (induction K arbitrary: found count) (simp_all add: references_def)

lemma findTargetContainer_filter:
  "findTargetContainer t K
     = (if length (filter (references t) K) = 1 then Some (hd (filter (references t) K))
        else None)"
proof (cases "filter (references t) K")
  case Nil
  then show ?thesis by (simp add: findTargetContainer_def findTargetContainer_loop_filter)
next
  case (Cons n ns)
  then show ?thesis
    by (cases ns) (simp_all add: findTargetContainer_def findTargetContainer_loop_filter)
qed

lemma filter_single:
  assumes "distinct K"
  shows "filter P K = [n] \<longleftrightarrow> n \<in> set K \<and> P n \<and> (\<forall>m \<in> set K. P m \<longrightarrow> m = n)"
proof
  assume f: "filter P K = [n]"
  then have "set (filter P K) = {n}" by simp
  then show "n \<in> set K \<and> P n \<and> (\<forall>m \<in> set K. P m \<longrightarrow> m = n)" by auto
next
  assume a: "n \<in> set K \<and> P n \<and> (\<forall>m \<in> set K. P m \<longrightarrow> m = n)"
  then have s: "set (filter P K) = {n}" by auto
  have d: "distinct (filter P K)" using assms by simp
  from d have "length (filter P K) = card (set (filter P K))"
    by (rule distinct_card [symmetric])
  then have "length (filter P K) = 1" unfolding s by simp
  then obtain y where y: "filter P K = [y]" by (cases "filter P K") auto
  with s show "filter P K = [n]" by simp
qed

lemma validateCommand_table:
  "validateCommand cmd K =
     (if trim cmd = [] then
        Inl \<lparr>err_command = cmd, err_reason = ''Empty command not allowed''\<rparr>
      else case first_blocked BLOCKED_PATTERNS (trim cmd) of
        Some rsn \<Rightarrow> Inl \<lparr>err_command = cmd, err_reason = rsn\<rparr>
      | None \<Rightarrow>
          if filter (references (trim cmd)) K = [] then
            Inl \<lparr>err_command = cmd,
                 err_reason = ''Command does not reference any known container''\<rparr>
          else if (\<exists>n. n \<noteq> [] \<and> filter (references (trim cmd)) K = [n]) then Inr ()
          else Inl \<lparr>err_command = cmd,
                    err_reason = ''Command references multiple containers: ''
                       @ join '', '' (filter (references (trim cmd)) K)\<rparr>)"
proof -
  have r: "(\<lambda>c. rx_test False (container_pattern c) t) = references t" for t
    by (simp add: references_def fun_eq_iff)
  show ?thesis
  proof (cases "filter (references (trim cmd)) K")
    case Nil
    then show ?thesis
      by (simp add: validateCommand_def findTargetContainer_filter r Let_def
          split: option.splits)
  next
    case (Cons n ns)
    then show ?thesis
      by (cases ns)
        (simp_all add: validateCommand_def findTargetContainer_filter r Let_def
          split: option.splits)
  qed
qed

lemma blocked_empty: "blocked []"
  by (simp add: blocked_def)

text \<open>
  C1, as the code has it. For every command and every set of known container names
  (\<open>K\<close>, the elements of the set in iteration order), with \<open>t\<close> the trimmed command:
  the command is accepted exactly when no row of the table applies to \<open>t\<close> and exactly one
  known name, a non-empty one, stands in \<open>t\<close> between word boundaries; when \<open>t\<close> is not
  empty and some row applies, the command is rejected with a reason of the table, namely
  the reason of the first row that matches, which is the one \<open>table_reason\<close> gives; the
  first row rejects every \<open>t\<close> that does not begin with \<open>docker\<close> (in any case) followed
  by a white-space character; when no row applies and no known name is referenced the
  reason is that no known container is referenced, and when two different known names
  are referenced the reason lists all the referenced names in the order of the set. A
  name stands between word boundaries when the command is some text, the name, and some
  text, with a word character on exactly one side of the place where the name begins,
  and likewise where it ends. The expressions with the \<open>i\<close> flag (the first row and the
  shell invocations) compare a literal character with a code unit up to the case of the
  26 letters.
\<close>

theorem validateCommand_decision:
  assumes "distinct K"
  shows
    "(validateCommand cmd K = Inr () \<longleftrightarrow>
        \<not> blocked (trim cmd)
        \<and> (\<exists>n. n \<noteq> [] \<and> n \<in> set K \<and> references (trim cmd) n
               \<and> (\<forall>m \<in> set K. references (trim cmd) m \<longrightarrow> m = n)))
   \<and> (trim cmd \<noteq> [] \<and> blocked (trim cmd) \<longrightarrow>
        (\<exists>r \<in> set (map (\<lambda>x. snd (snd x)) BLOCKED_PATTERNS).
           validateCommand cmd K = Inl \<lparr>err_command = cmd, err_reason = r\<rparr>))
   \<and> (trim cmd \<noteq> [] \<and> \<not> starts_with_docker (trim cmd) \<longrightarrow>
        validateCommand cmd K
          = Inl \<lparr>err_command = cmd, err_reason = must_start_with_docker\<rparr>)
   \<and> (\<forall>pre p ci r post.
        trim cmd \<noteq> [] \<and> BLOCKED_PATTERNS = pre @ (p, ci, r) # post
        \<and> (\<forall>x \<in> set pre. \<not> rx_test (fst (snd x)) (fst x) (trim cmd))
        \<and> rx_test ci p (trim cmd) \<longrightarrow>
        validateCommand cmd K = Inl \<lparr>err_command = cmd, err_reason = r\<rparr>)
   \<and> (\<not> blocked (trim cmd) \<and> (\<forall>n \<in> set K. \<not> references (trim cmd) n) \<longrightarrow>
        validateCommand cmd K
          = Inl \<lparr>err_command = cmd,
                 err_reason = ''Command does not reference any known container''\<rparr>)
   \<and> (\<not> blocked (trim cmd)
        \<and> (\<exists>n \<in> set K. \<exists>m \<in> set K.
              n \<noteq> m \<and> references (trim cmd) n \<and> references (trim cmd) m) \<longrightarrow>
        validateCommand cmd K
          = Inl \<lparr>err_command = cmd,
                 err_reason = ''Command references multiple containers: ''
                    @ join '', '' (filter (references (trim cmd)) K)\<rparr>)
   \<and> (\<forall>r. trim cmd \<noteq> [] \<and> table_reason (trim cmd) = Some r \<longrightarrow>
        validateCommand cmd K = Inl \<lparr>err_command = cmd, err_reason = r\<rparr>)
   \<and> (blocked (trim cmd) \<longleftrightarrow> table_reason (trim cmd) \<noteq> None)
   \<and> (\<forall>n. references (trim cmd) n \<longleftrightarrow>
          (\<exists>a b. trim cmd = a @ n @ b
             \<and> word_before (char_before a) \<noteq> word_after (n @ b)
             \<and> word_before (char_before (a @ n)) \<noteq> word_after b))
   \<and> (\<forall>c x. \<not> digit7 c \<longrightarrow> (char_matches True c x \<longleftrightarrow> same_letter x c))"
  (is "?A \<and> ?B \<and> ?C \<and> ?D \<and> ?E \<and> ?F \<and> ?G \<and> ?H \<and> ?I \<and> ?J")
proof -
  let ?t = "trim cmd"
  let ?ms = "filter (references ?t) K"
  note tab = validateCommand_table [of cmd K]
  have nb: "first_blocked BLOCKED_PATTERNS ?t = None \<and> ?t \<noteq> []" if "\<not> blocked ?t"
    using that blocked_iff [of ?t] blocked_empty by auto
  have single: "(\<exists>n. n \<noteq> [] \<and> ?ms = [n]) \<longleftrightarrow>
      (\<exists>n. n \<noteq> [] \<and> n \<in> set K \<and> references ?t n
            \<and> (\<forall>m \<in> set K. references ?t m \<longrightarrow> m = n))"
    unfolding filter_single [OF assms] ..
  have a: ?A
  proof (cases "blocked ?t")
    case True
    show ?thesis
    proof (cases "?t = []")
      case True
      with \<open>blocked ?t\<close> show ?thesis using tab by simp
    next
      case False
      from \<open>blocked ?t\<close> blocked_iff [of ?t]
      obtain r where "first_blocked BLOCKED_PATTERNS ?t = Some r" by auto
      with False \<open>blocked ?t\<close> show ?thesis using tab by simp
    qed
  next
    case False
    from nb [OF False] have "validateCommand cmd K = Inr () \<longleftrightarrow> (\<exists>n. n \<noteq> [] \<and> ?ms = [n])"
      using tab by auto
    with False show ?thesis unfolding single by simp
  qed
  have b: ?B
  proof
    assume h: "?t \<noteq> [] \<and> blocked ?t"
    with blocked_iff [of ?t]
    obtain r where r: "first_blocked BLOCKED_PATTERNS ?t = Some r" by auto
    from first_blocked_reason [OF r] h r tab
    show "\<exists>r \<in> set (map (\<lambda>x. snd (snd x)) BLOCKED_PATTERNS).
            validateCommand cmd K = Inl \<lparr>err_command = cmd, err_reason = r\<rparr>"
      by auto
  qed
  have d: ?D
  proof (intro allI impI)
    fix pre p ci r post
    assume h: "?t \<noteq> [] \<and> BLOCKED_PATTERNS = pre @ (p, ci, r) # post
        \<and> (\<forall>x \<in> set pre. \<not> rx_test (fst (snd x)) (fst x) ?t) \<and> rx_test ci p ?t"
    then have "first_blocked (pre @ (p, ci, r) # post) ?t = Some r"
      by (intro first_blocked_first) simp_all
    with h have "first_blocked BLOCKED_PATTERNS ?t = Some r" by simp
    with h tab show "validateCommand cmd K = Inl \<lparr>err_command = cmd, err_reason = r\<rparr>"
      by simp
  qed
  have c: ?C
  proof
    assume h: "?t \<noteq> [] \<and> \<not> starts_with_docker ?t"
    then have "rx_test True rx_start_docker ?t" by (simp add: rx_test_start_docker)
    then have "first_blocked BLOCKED_PATTERNS ?t = Some must_start_with_docker"
      unfolding BLOCKED_PATTERNS_def by simp
    with h tab
    show "validateCommand cmd K
            = Inl \<lparr>err_command = cmd, err_reason = must_start_with_docker\<rparr>"
      by simp
  qed
  have e: ?E
  proof
    assume h: "\<not> blocked ?t \<and> (\<forall>n \<in> set K. \<not> references ?t n)"
    then have "?ms = []" by (simp add: filter_empty_conv)
    with nb h tab
    show "validateCommand cmd K
          = Inl \<lparr>err_command = cmd,
                 err_reason = ''Command does not reference any known container''\<rparr>"
      by simp
  qed
  have f: ?F
  proof
    assume h: "\<not> blocked ?t
        \<and> (\<exists>n \<in> set K. \<exists>m \<in> set K. n \<noteq> m \<and> references ?t n \<and> references ?t m)"
    then obtain n m where nm: "n \<in> set ?ms" "m \<in> set ?ms" "n \<noteq> m" by auto
    from nm(1) have "?ms \<noteq> []" by (cases ?ms) simp_all
    moreover have "\<not> (\<exists>k. k \<noteq> [] \<and> ?ms = [k])"
    proof
      assume "\<exists>k. k \<noteq> [] \<and> ?ms = [k]"
      then obtain k where "?ms = [k]" by blast
      with nm show False by simp
    qed
    ultimately
    show "validateCommand cmd K
          = Inl \<lparr>err_command = cmd,
                 err_reason = ''Command references multiple containers: ''
                    @ join '', '' ?ms\<rparr>"
      using nb h tab by simp
  qed
  have g: ?G
  proof (intro allI impI)
    fix r
    assume "?t \<noteq> [] \<and> table_reason ?t = Some r"
    with tab show "validateCommand cmd K = Inl \<lparr>err_command = cmd, err_reason = r\<rparr>"
      by (simp add: first_blocked_table)
  qed
  have h: ?H by (rule blocked_table)
  have i: ?I using references_iff by blast
  have j: ?J using char_matches_same_letter by blast
  from a b c d e f g h i j show ?thesis
    by (rule conjI [OF _ conjI [OF _ conjI [OF _ conjI [OF _ conjI [OF _ conjI [OF _ conjI
        [OF _ conjI [OF _ conjI]]]]]]]])
qed

theorem validateCommand_decision_witness:
  "validateCommand ''  docker restart cache '' [''cache'', ''db''] = Inr ()
 \<and> validateCommand ''ls cache'' [''cache'', ''db'']
     = Inl \<lparr>err_command = ''ls cache'', err_reason = must_start_with_docker\<rparr>
 \<and> validateCommand ''docker logs cache | tail'' [''cache'', ''db'']
     = Inl \<lparr>err_command = ''docker logs cache | tail'', err_reason = ''Pipes not allowed''\<rparr>
 \<and> validateCommand ''docker ps'' [''cache'', ''db'']
     = Inl \<lparr>err_command = ''docker ps'',
            err_reason = ''Command does not reference any known container''\<rparr>
 \<and> validateCommand ''docker restart cache db'' [''cache'', ''db'']
     = Inl \<lparr>err_command = ''docker restart cache db'',
            err_reason = ''Command references multiple containers: cache, db''\<rparr>
 \<and> validateCommand ''docker exec cache SH  -c ls'' [''cache'', ''db'']
     = Inl \<lparr>err_command = ''docker exec cache SH  -c ls'',
            err_reason = ''Shell invocation not allowed''\<rparr>"
proof -
  let ?K = "[''cache'', ''db'']"
  have dK: "distinct ?K" by simp
  note dec = validateCommand_decision [OF dK]
  have t1: "trim ''  docker restart cache '' = ''docker restart cache''" by code_simp
  have t2: "trim ''ls cache'' = ''ls cache''" by code_simp
  have t3: "trim ''docker logs cache | tail'' = ''docker logs cache | tail''" by code_simp
  have t4: "trim ''docker ps'' = ''docker ps''" by code_simp
  have t5: "trim ''docker restart cache db'' = ''docker restart cache db''" by code_simp
  have nb1: "\<not> blocked ''docker restart cache''" by code_simp
  have r1: "''cache'' \<noteq> [] \<and> ''cache'' \<in> set ?K \<and> references ''docker restart cache'' ''cache''
      \<and> (\<forall>m \<in> set ?K. references ''docker restart cache'' m \<longrightarrow> m = ''cache'')"
    by code_simp
  have "\<exists>n. n \<noteq> [] \<and> n \<in> set ?K \<and> references ''docker restart cache'' n
      \<and> (\<forall>m \<in> set ?K. references ''docker restart cache'' m \<longrightarrow> m = n)"
    by (rule exI [where x = "''cache''"]) (rule r1)
  with nb1 have w1: "validateCommand ''  docker restart cache '' ?K = Inr ()"
    using dec [of "''  docker restart cache ''", THEN conjunct1] unfolding t1 by simp
  have "trim ''ls cache'' \<noteq> [] \<and> \<not> starts_with_docker (trim ''ls cache'')"
    unfolding t2 by simp
  from dec [of "''ls cache''", THEN conjunct2, THEN conjunct2, THEN conjunct1, THEN mp, OF this]
  have w2: "validateCommand ''ls cache'' ?K
     = Inl \<lparr>err_command = ''ls cache'', err_reason = must_start_with_docker\<rparr>" .
  let ?pre = "[(rx_start_docker, True, must_start_with_docker),
     (rx_sh_c, True, ''Shell invocation not allowed''),
     (rx_bash_c, True, ''Shell invocation not allowed'')]"
  let ?post = "drop 4 BLOCKED_PATTERNS"
  have p3: "\<forall>x \<in> set ?pre. \<not> rx_test (fst (snd x)) (fst x) ''docker logs cache | tail''"
    by code_simp
  have m3: "rx_test False (Lit CHR ''|'') ''docker logs cache | tail''" by code_simp
  have "trim ''docker logs cache | tail'' \<noteq> []
      \<and> BLOCKED_PATTERNS = ?pre @ (Lit CHR ''|'', False, ''Pipes not allowed'') # ?post
      \<and> (\<forall>x \<in> set ?pre. \<not> rx_test (fst (snd x)) (fst x) (trim ''docker logs cache | tail''))
      \<and> rx_test False (Lit CHR ''|'') (trim ''docker logs cache | tail'')"
    unfolding t3 using p3 m3 by (simp add: BLOCKED_PATTERNS_def)
  from dec [of "''docker logs cache | tail''", THEN conjunct2, THEN conjunct2, THEN conjunct2,
      THEN conjunct1, THEN spec, THEN spec, THEN spec, THEN spec, THEN spec, THEN mp, OF this]
  have w3: "validateCommand ''docker logs cache | tail'' ?K
     = Inl \<lparr>err_command = ''docker logs cache | tail'', err_reason = ''Pipes not allowed''\<rparr>" .
  have "\<not> blocked (trim ''docker ps'') \<and> (\<forall>n \<in> set ?K. \<not> references (trim ''docker ps'') n)"
    unfolding t4 by code_simp
  from dec [of "''docker ps''", THEN conjunct2, THEN conjunct2, THEN conjunct2,
      THEN conjunct2, THEN conjunct1, THEN mp, OF this]
  have w4: "validateCommand ''docker ps'' ?K
     = Inl \<lparr>err_command = ''docker ps'',
            err_reason = ''Command does not reference any known container''\<rparr>" .
  have nb5: "\<not> blocked ''docker restart cache db''" by code_simp
  have r5: "''cache'' \<noteq> ''db'' \<and> references ''docker restart cache db'' ''cache''
      \<and> references ''docker restart cache db'' ''db''" by code_simp
  have j5: "''Command references multiple containers: ''
          @ join '', '' (filter (references ''docker restart cache db'') ?K)
        = ''Command references multiple containers: cache, db''" by code_simp
  have "\<not> blocked (trim ''docker restart cache db'')
      \<and> (\<exists>n \<in> set ?K. \<exists>m \<in> set ?K. n \<noteq> m \<and> references (trim ''docker restart cache db'') n
             \<and> references (trim ''docker restart cache db'') m)"
    unfolding t5 using nb5 r5 by simp
  from dec [of "''docker restart cache db''", THEN conjunct2, THEN conjunct2, THEN conjunct2,
      THEN conjunct2, THEN conjunct2, THEN conjunct1, THEN mp, OF this]
  have w5: "validateCommand ''docker restart cache db'' ?K
     = Inl \<lparr>err_command = ''docker restart cache db'',
            err_reason = ''Command references multiple containers: cache, db''\<rparr>"
    unfolding t5 j5 .
  have t6: "trim ''docker exec cache SH  -c ls'' = ''docker exec cache SH  -c ls''" by code_simp
  have r6: "table_reason ''docker exec cache SH  -c ls'' = Some ''Shell invocation not allowed''"
    by code_simp
  have "trim ''docker exec cache SH  -c ls'' \<noteq> []
      \<and> table_reason (trim ''docker exec cache SH  -c ls'') = Some ''Shell invocation not allowed''"
    unfolding t6 using r6 by simp
  from dec [of "''docker exec cache SH  -c ls''", THEN conjunct2, THEN conjunct2, THEN conjunct2,
      THEN conjunct2, THEN conjunct2, THEN conjunct2, THEN conjunct1, THEN spec, THEN mp, OF this]
  have w6: "validateCommand ''docker exec cache SH  -c ls'' ?K
     = Inl \<lparr>err_command = ''docker exec cache SH  -c ls'',
            err_reason = ''Shell invocation not allowed''\<rparr>" .
  from w1 w2 w3 w4 w5 w6 show ?thesis
    by (rule conjI [OF _ conjI [OF _ conjI [OF _ conjI [OF _ conjI]]]])
qed

text \<open>
  C1 as stated fails on the first row: the expression is \<open>/^(?!docker\s)/i\<close>, so a command
  that begins with \<open>Docker\<close> does not begin with the literal \<open>docker \<close> and is accepted.
\<close>

theorem validateCommand_decision_counterexample:
  "validateCommand ''Docker start cache'' [''cache''] = Inr ()
 \<and> \<not> starts_with ''Docker start cache'' ''docker ''"
  by code_simp

section \<open>Properties of the capabilities\<close>









text \<open>
  C4. \<open>verifyPlan\<close> fails, with the state and the world as they were, unless a plan
  exists and \<open>executionResult\<close> is present with \<open>failedAtStep = -1\<close>. Under that
  precondition an empty \<open>plan.verification\<close> gives the empty result and
  \<open>resolution = resolved\<close> with the world untouched (no command is run); otherwise the
  verification commands are run in order: on full success the result is stored and
  \<open>resolution\<close> becomes \<open>resolved\<close>; on a failure the result is stored with a
  \<open>failureContext\<close> of type \<open>verification_failed\<close> that carries the failing command and
  its output (\<open>stderr\<close>, or \<open>stdout\<close> when \<open>stderr\<close> is empty), and \<open>resolution\<close> stays as
  it was. The indexing of the failed step never throws.
\<close>

theorem verifyPlan_contract:
  assumes run: "verifyPlan ex clk state w = (r, w')"
  shows
  "(plan state = None \<or> executionResult state = None
      \<or> (\<exists>er. executionResult state = Some er \<and> failedAtStep er \<noteq> - 1) \<longrightarrow>
      (\<exists>msg. r = Inr (failure state msg)) \<and> w' = w)
 \<and> (\<forall>pl er. plan state = Some pl \<and> executionResult state = Some er
        \<and> failedAtStep er = - 1 \<and> verification pl = [] \<longrightarrow>
      r = Inr (success (state\<lparr>verificationResult := Some \<lparr>results = [], failedAtStep = - 1\<rparr>,
                              resolution := resolved\<rparr>)
                 (Some (VerificationData \<lparr>results = [], failedAtStep = - 1\<rparr> True)))
      \<and> w' = w)
 \<and> (\<forall>pl er vr w1. plan state = Some pl \<and> executionResult state = Some er
        \<and> failedAtStep er = - 1 \<and> verification pl \<noteq> []
        \<and> executeCommands ex clk (verification pl) w = (vr, w1) \<longrightarrow>
      w' = w1
      \<and> (failedAtStep vr = - 1 \<longrightarrow>
            r = Inr (success (state\<lparr>verificationResult := Some vr, resolution := resolved\<rparr>)
                       (Some (VerificationData vr True))))
      \<and> (failedAtStep vr \<noteq> - 1 \<longrightarrow>
            (\<exists>msg. r = Inr (failure
               (state\<lparr>verificationResult := Some vr,
                      failureContext := Some
                        \<lparr>fc_type = verification_failed,
                         fc_step = Some (action (verification pl ! nat (failedAtStep vr))),
                         fc_reason = Some (''Verification failed at step ''
                                             @ show_int (failedAtStep vr + 1)),
                         fc_output = Some
                           (if stderr (results vr ! nat (failedAtStep vr)) \<noteq> []
                            then stderr (results vr ! nat (failedAtStep vr))
                            else stdout (results vr ! nat (failedAtStep vr)))\<rparr>\<rparr>) msg))
            \<and> status (results vr ! nat (failedAtStep vr)) = Failure
            \<and> step (results vr ! nat (failedAtStep vr))
                = action (verification pl ! nat (failedAtStep vr))
            \<and> (\<forall>c. r = Inr c \<longrightarrow> resolution (res_state c) = resolution state)))"
  (is "?P1 \<and> ?P2 \<and> ?P3")
proof -
  have p1: ?P1
    using run by (auto simp: verifyPlan_def split: option.splits)
  have p2: ?P2
    using run by (auto simp: verifyPlan_def Let_def)
  have p3: ?P3
  proof (intro allI impI)
    fix pl er vr w1
    assume a: "plan state = Some pl \<and> executionResult state = Some er
        \<and> failedAtStep er = - 1 \<and> verification pl \<noteq> []
        \<and> executeCommands ex clk (verification pl) w = (vr, w1)"
    then have exe: "executeCommands ex clk (verification pl) w = (vr, w1)" by simp
    note c = executeCommands_shape [OF exe]
    have w: "w' = w1"
      using a run by (auto simp: verifyPlan_def Let_def split: option.splits if_splits)
    have ok: "failedAtStep vr = - 1 \<longrightarrow>
            r = Inr (success (state\<lparr>verificationResult := Some vr, resolution := resolved\<rparr>)
                       (Some (VerificationData vr True)))"
      using a run by (auto simp: verifyPlan_def Let_def)
    have bad: "(\<exists>msg. r = Inr (failure
               (state\<lparr>verificationResult := Some vr,
                      failureContext := Some
                        \<lparr>fc_type = verification_failed,
                         fc_step = Some (action (verification pl ! nat (failedAtStep vr))),
                         fc_reason = Some (''Verification failed at step ''
                                             @ show_int (failedAtStep vr + 1)),
                         fc_output = Some
                           (if stderr (results vr ! nat (failedAtStep vr)) \<noteq> []
                            then stderr (results vr ! nat (failedAtStep vr))
                            else stdout (results vr ! nat (failedAtStep vr)))\<rparr>\<rparr>) msg))
            \<and> status (results vr ! nat (failedAtStep vr)) = Failure
            \<and> step (results vr ! nat (failedAtStep vr))
                = action (verification pl ! nat (failedAtStep vr))
            \<and> (\<forall>c. r = Inr c \<longrightarrow> resolution (res_state c) = resolution state)"
      if bad: "failedAtStep vr \<noteq> - 1"
    proof -
      from bad c have rng: "0 \<le> failedAtStep vr" "nat (failedAtStep vr) < length (results vr)"
        and st: "status (results vr ! nat (failedAtStep vr)) = Failure"
        and len: "length (results vr) \<le> length (verification pl)"
        and stp: "\<forall>k < length (results vr). step (results vr ! k) = action (verification pl ! k)"
        by blast+
      from rng len have i1: "nth_opt (results vr) (failedAtStep vr)
                              = Some (results vr ! nat (failedAtStep vr))"
        and i2: "nth_opt (verification pl) (failedAtStep vr)
                              = Some (verification pl ! nat (failedAtStep vr))"
        by (auto simp: nth_opt_def)
      from a have pl: "plan state = Some pl" and er: "executionResult state = Some er"
        and er1: "failedAtStep er = - 1" and ne: "verification pl \<noteq> []" by simp_all
      have r: "r = Inr (failure
               (state\<lparr>verificationResult := Some vr,
                      failureContext := Some
                        \<lparr>fc_type = verification_failed,
                         fc_step = Some (action (verification pl ! nat (failedAtStep vr))),
                         fc_reason = Some (''Verification failed at step ''
                                             @ show_int (failedAtStep vr + 1)),
                         fc_output = Some
                           (if stderr (results vr ! nat (failedAtStep vr)) \<noteq> []
                            then stderr (results vr ! nat (failedAtStep vr))
                            else stdout (results vr ! nat (failedAtStep vr)))\<rparr>\<rparr>)
               (''Verification failed at step '' @ show_int (failedAtStep vr + 1) @ '': ''
                  @ (if (if stderr (results vr ! nat (failedAtStep vr)) \<noteq> []
                         then stderr (results vr ! nat (failedAtStep vr))
                         else stdout (results vr ! nat (failedAtStep vr))) \<noteq> []
                     then (if stderr (results vr ! nat (failedAtStep vr)) \<noteq> []
                         then stderr (results vr ! nat (failedAtStep vr))
                         else stdout (results vr ! nat (failedAtStep vr)))
                     else action (verification pl ! nat (failedAtStep vr)))))"
        using run bad
        by (simp add: verifyPlan_def pl er er1 ne exe i1 i2 Let_def del: show_nat.simps)
      then have "\<forall>c. r = Inr c \<longrightarrow> resolution (res_state c) = resolution state"
        by (simp add: failure_def)
      with r st stp rng show ?thesis by blast
    qed
    from w ok bad show "w' = w1
      \<and> (failedAtStep vr = - 1 \<longrightarrow>
            r = Inr (success (state\<lparr>verificationResult := Some vr, resolution := resolved\<rparr>)
                       (Some (VerificationData vr True))))
      \<and> (failedAtStep vr \<noteq> - 1 \<longrightarrow>
            (\<exists>msg. r = Inr (failure
               (state\<lparr>verificationResult := Some vr,
                      failureContext := Some
                        \<lparr>fc_type = verification_failed,
                         fc_step = Some (action (verification pl ! nat (failedAtStep vr))),
                         fc_reason = Some (''Verification failed at step ''
                                             @ show_int (failedAtStep vr + 1)),
                         fc_output = Some
                           (if stderr (results vr ! nat (failedAtStep vr)) \<noteq> []
                            then stderr (results vr ! nat (failedAtStep vr))
                            else stdout (results vr ! nat (failedAtStep vr)))\<rparr>\<rparr>) msg))
            \<and> status (results vr ! nat (failedAtStep vr)) = Failure
            \<and> step (results vr ! nat (failedAtStep vr))
                = action (verification pl ! nat (failedAtStep vr))
            \<and> (\<forall>c. r = Inr c \<longrightarrow> resolution (res_state c) = resolution state))"
      by blast
  qed
  from p1 p2 p3 show ?thesis by (rule conjI [OF _ conjI])
qed



lemma planRemediation_refused:
  assumes "\<forall>g rootNode. \<not> plannable state g rootNode"
  shows "\<exists>msg. planRemediation agent loadKnowledge raw state w = (Inr (failure state msg), w)"
proof (cases "incidentGraph state")
  case None
  then show ?thesis by (auto simp: planRemediation_def)
next
  case g: (Some g)
  show ?thesis
  proof (cases "nodes g = []")
    case True
    with g show ?thesis by (auto simp: planRemediation_def)
  next
    case ne: False
    show ?thesis
    proof (cases "feasibility state")
      case None
      with g ne show ?thesis by (auto simp: planRemediation_def)
    next
      case fe: (Some fe)
      show ?thesis
      proof (cases "feasible fe")
        case False
        with g ne fe show ?thesis by (auto simp: planRemediation_def)
      next
        case feas: True
        show ?thesis
        proof (cases "plan state \<noteq> None \<and> failureContext state = None")
          case True
          with g ne fe feas show ?thesis by (auto simp: planRemediation_def Let_def)
        next
          case pf: False
          show ?thesis
          proof (cases "root g")
            case None
            with g ne fe feas pf show ?thesis by (auto simp: planRemediation_def Let_def)
          next
            case rt: (Some rt)
            show ?thesis
            proof (cases "nth_opt (nodes g) rt")
              case None
              with g ne fe feas pf rt show ?thesis
                by (auto simp: planRemediation_def Let_def)
            next
              case (Some rootNode)
              with g ne fe feas pf rt have "plannable state g rootNode"
                by (auto simp: plannable_def)
              with assms show ?thesis by blast
            qed
          qed
        qed
      qed
    qed
  qed
qed

lemma planRemediation_plannable:
  assumes "plannable state g rootNode"
  shows "planRemediation agent loadKnowledge raw state w =
     (case loadKnowledge w of
        Inl e \<Rightarrow> (Inl e, w)
      | Inr knowledge \<Rightarrow>
          (case agent \<lparr>pm_infrastructure = raw, pm_knowledge = knowledge, pm_graph = g,
                       pm_rootNode = rootNode,
                       pm_previousPlan =
                         (if failureContext state \<noteq> None then plan state else None),
                       pm_failureContext = failureContext state\<rparr>
                      (plannerHistory state) w of
             (Inr (result, conversationHistory), w1) \<Rightarrow>
               (Inr (success
                 (state\<lparr>plan := Some result,
                        plannerHistory := conversationHistory,
                        planValidated := False,
                        executionResult := None,
                        verificationResult := None,
                        failureContext := None\<rparr>)
                 (Some (PlanRemediationData result))), w1)
           | (Inl e, w1) \<Rightarrow> (Inr (failure state (''Planning failed: '' @ e)), w1)))"
proof -
  from assms obtain fe rt where
    g: "incidentGraph state = Some g" and ne: "nodes g \<noteq> []"
    and fe: "feasibility state = Some fe" "feasible fe"
    and pf: "plan state = None \<or> failureContext state \<noteq> None"
    and rt: "root g = Some rt" "nth_opt (nodes g) rt = Some rootNode"
    by (auto simp: plannable_def)
  have prev: "(if plan state \<noteq> None \<and> failureContext state \<noteq> None then plan state else None)
            = (if failureContext state \<noteq> None then plan state else None)"
    by auto
  from pf have nopf: "\<not> (plan state \<noteq> None \<and> failureContext state = None)" by auto
  show ?thesis
    unfolding planRemediation_def
    by (simp only: g ne fe rt nopf prev option.case if_False if_True Let_def
        length_0_conv not_True_eq_False not_False_eq_True)
qed


lemma planRemediation_outcomes:
  assumes run: "planRemediation agent loadKnowledge raw state w = (r, w')"
  shows "((\<exists>msg. r = Inr (failure state msg)) \<and> w' = w \<and> (\<forall>g n. \<not> plannable state g n))
       \<or> ((\<exists>e. r = Inl e \<and> loadKnowledge w = Inl e) \<and> w' = w \<and> (\<exists>g n. plannable state g n))
       \<or> (\<exists>g n knowledge e.
             plannable state g n \<and> loadKnowledge w = Inr knowledge
           \<and> agent \<lparr>pm_infrastructure = raw, pm_knowledge = knowledge, pm_graph = g,
                     pm_rootNode = n,
                     pm_previousPlan =
                       (if failureContext state \<noteq> None then plan state else None),
                     pm_failureContext = failureContext state\<rparr>
                    (plannerHistory state) w = (Inl e, w')
           \<and> r = Inr (failure state (''Planning failed: '' @ e)))
       \<or> (\<exists>g n knowledge newPlan conversationHistory.
             plannable state g n \<and> loadKnowledge w = Inr knowledge
           \<and> agent \<lparr>pm_infrastructure = raw, pm_knowledge = knowledge, pm_graph = g,
                     pm_rootNode = n,
                     pm_previousPlan =
                       (if failureContext state \<noteq> None then plan state else None),
                     pm_failureContext = failureContext state\<rparr>
                    (plannerHistory state) w = (Inr (newPlan, conversationHistory), w')
           \<and> r = Inr (success (state\<lparr>plan := Some newPlan,
                               plannerHistory := conversationHistory,
                               planValidated := False,
                               executionResult := None,
                               verificationResult := None,
                               failureContext := None\<rparr>)
                 (Some (PlanRemediationData newPlan))))"
proof (cases "\<exists>g n. plannable state g n")
  case False
  then have no: "\<forall>g n. \<not> plannable state g n" by blast
  from planRemediation_refused [OF no, of agent loadKnowledge raw w] run no
  show ?thesis by auto
next
  case True
  then obtain g n where pl: "plannable state g n" by blast
  note eq = planRemediation_plannable [OF pl, of agent loadKnowledge raw w]
  show ?thesis
  proof (cases "loadKnowledge w")
    case (Inl e)
    with eq run pl show ?thesis by auto
  next
    case k: (Inr knowledge)
    let ?m = "\<lparr>pm_infrastructure = raw, pm_knowledge = knowledge, pm_graph = g,
                     pm_rootNode = n,
                     pm_previousPlan =
                       (if failureContext state \<noteq> None then plan state else None),
                     pm_failureContext = failureContext state\<rparr>"
    obtain a w1 where ag: "agent ?m (plannerHistory state) w = (a, w1)"
      by (cases "agent ?m (plannerHistory state) w")
    show ?thesis
    proof (cases a)
      case (Inl e)
      with eq run k ag have "r = Inr (failure state (''Planning failed: '' @ e))" "w' = w1"
        by simp_all
      with pl k ag Inl show ?thesis by blast
    next
      case (Inr ph)
      obtain newPlan h where ph: "ph = (newPlan, h)" by (cases ph)
      with eq run k ag Inr have
        "r = Inr (success (state\<lparr>plan := Some newPlan, plannerHistory := h,
                               planValidated := False, executionResult := None,
                               verificationResult := None, failureContext := None\<rparr>)
                 (Some (PlanRemediationData newPlan)))" "w' = w1"
        by simp_all
      with pl k ag Inr ph show ?thesis by blast
    qed
  qed
qed

lemma plannable_unique:
  "plannable state g n \<Longrightarrow> plannable state g' n' \<Longrightarrow> g' = g \<and> n' = n"
  by (auto simp: plannable_def)

text \<open>
  C5. \<open>planRemediation\<close> fails with the state and the world as they were unless
  \<open>feasibility\<close> is present with \<open>feasible = true\<close> and either no plan exists or a plan
  exists together with a \<open>failureContext\<close>; every failure returns the state unchanged.
  On success the plan is the reasoner's new plan, \<open>planValidated\<close> is false,
  \<open>executionResult\<close>, \<open>verificationResult\<close> and \<open>failureContext\<close> are cleared, and only
  \<open>plannerHistory\<close> changes besides: \<open>logs\<close>, \<open>incidentGraph\<close>, \<open>feasibility\<close> and
  \<open>resolution\<close> are those of the input. When the checks pass and the reasoner answers,
  the call does succeed.
\<close>

theorem planRemediation_contract:
  assumes run: "planRemediation agent loadKnowledge raw state w = (r, w')"
  shows
  "(\<not> (\<exists>fe. feasibility state = Some fe \<and> feasible fe
           \<and> (plan state = None \<or> (plan state \<noteq> None \<and> failureContext state \<noteq> None))) \<longrightarrow>
      (\<exists>msg. r = Inr (failure state msg)) \<and> w' = w)
 \<and> (\<forall>c. r = Inr c \<and> \<not> res_success c \<longrightarrow> res_state c = state)
 \<and> (\<forall>c. r = Inr c \<and> res_success c \<longrightarrow>
      (\<exists>newPlan conversationHistory.
          res_state c = state\<lparr>plan := Some newPlan,
                               plannerHistory := conversationHistory,
                               planValidated := False,
                               executionResult := None,
                               verificationResult := None,
                               failureContext := None\<rparr>
        \<and> res_data c = Some (PlanRemediationData newPlan))
      \<and> planValidated (res_state c) = False
      \<and> executionResult (res_state c) = None
      \<and> verificationResult (res_state c) = None
      \<and> failureContext (res_state c) = None
      \<and> logs (res_state c) = logs state
      \<and> incidentGraph (res_state c) = incidentGraph state
      \<and> feasibility (res_state c) = feasibility state
      \<and> resolution (res_state c) = resolution state)
 \<and> (\<forall>g fe rt rootNode knowledge newPlan conversationHistory w1.
        incidentGraph state = Some g \<and> nodes g \<noteq> []
      \<and> feasibility state = Some fe \<and> feasible fe
      \<and> (plan state = None \<or> failureContext state \<noteq> None)
      \<and> root g = Some rt \<and> nth_opt (nodes g) rt = Some rootNode
      \<and> loadKnowledge w = Inr knowledge
      \<and> agent \<lparr>pm_infrastructure = raw, pm_knowledge = knowledge, pm_graph = g,
                pm_rootNode = rootNode,
                pm_previousPlan = (if failureContext state \<noteq> None then plan state else None),
                pm_failureContext = failureContext state\<rparr>
               (plannerHistory state) w = (Inr (newPlan, conversationHistory), w1) \<longrightarrow>
      r = Inr (success (state\<lparr>plan := Some newPlan,
                               plannerHistory := conversationHistory,
                               planValidated := False,
                               executionResult := None,
                               verificationResult := None,
                               failureContext := None\<rparr>)
                 (Some (PlanRemediationData newPlan)))
      \<and> w' = w1)"
  (is "?P1 \<and> ?P2 \<and> ?P3 \<and> ?P4")
proof -
  note out = planRemediation_outcomes [OF run]
  have p1: ?P1
  proof
    assume "\<not> (\<exists>fe. feasibility state = Some fe \<and> feasible fe
           \<and> (plan state = None \<or> (plan state \<noteq> None \<and> failureContext state \<noteq> None)))"
    then have "\<forall>g n. \<not> plannable state g n" by (auto simp: plannable_def)
    with out show "(\<exists>msg. r = Inr (failure state msg)) \<and> w' = w" by blast
  qed
  have p2: ?P2
    using out by (elim disjE exE conjE) (auto simp: failure_def success_def)
  have p3: ?P3
    using out by (elim disjE exE conjE) (auto simp: failure_def success_def)
  have p4: ?P4
  proof (intro allI impI)
    fix g fe rt rootNode knowledge newPlan conversationHistory w1
    assume a: "incidentGraph state = Some g \<and> nodes g \<noteq> []
      \<and> feasibility state = Some fe \<and> feasible fe
      \<and> (plan state = None \<or> failureContext state \<noteq> None)
      \<and> root g = Some rt \<and> nth_opt (nodes g) rt = Some rootNode
      \<and> loadKnowledge w = Inr knowledge
      \<and> agent \<lparr>pm_infrastructure = raw, pm_knowledge = knowledge, pm_graph = g,
                pm_rootNode = rootNode,
                pm_previousPlan = (if failureContext state \<noteq> None then plan state else None),
                pm_failureContext = failureContext state\<rparr>
               (plannerHistory state) w = (Inr (newPlan, conversationHistory), w1)"
    then have pl: "plannable state g rootNode" by (auto simp: plannable_def)
    from planRemediation_plannable [OF pl, of agent loadKnowledge raw w] run a
    show "r = Inr (success (state\<lparr>plan := Some newPlan,
                               plannerHistory := conversationHistory,
                               planValidated := False,
                               executionResult := None,
                               verificationResult := None,
                               failureContext := None\<rparr>)
                 (Some (PlanRemediationData newPlan)))
      \<and> w' = w1"
      by simp
  qed
  from p1 p2 p3 p4 show ?thesis by (rule conjI [OF _ conjI [OF _ conjI]])
qed




theorem verifyPlan_contract_witness:
  "verifyPlan sample_exec sample_clock sample_executed 0
     = (Inr (failure
          (sample_executed\<lparr>verificationResult := Some
              \<lparr>results =
                 [\<lparr>step = ''docker inspect cache'', status = Success, exitCode = 0,
                   stdout = ''true'', stderr = [], timestamp = ''2024-01-15T10:30:00.000Z''\<rparr>,
                  \<lparr>step = ''docker inspect db'', status = Failure, exitCode = 1,
                   stdout = [], stderr = ''No such object: db'',
                   timestamp = ''2024-01-15T10:30:00.000Z''\<rparr>],
               failedAtStep = 1\<rparr>,
             failureContext := Some
               \<lparr>fc_type = verification_failed, fc_step = Some ''docker inspect db'',
                fc_reason = Some ''Verification failed at step 2'',
                fc_output = Some ''No such object: db''\<rparr>\<rparr>)
          ''Verification failed at step 2: No such object: db''), 2)
 \<and> verifyPlan sample_exec sample_clock
       (sample_executed\<lparr>plan := Some (sample_plan\<lparr>verification := []\<rparr>)\<rparr>) 0
     = (Inr (success
          (sample_executed\<lparr>plan := Some (sample_plan\<lparr>verification := []\<rparr>),
             verificationResult := Some \<lparr>results = [], failedAtStep = - 1\<rparr>,
             resolution := resolved\<rparr>)
          (Some (VerificationData \<lparr>results = [], failedAtStep = - 1\<rparr> True))), 0)
 \<and> verifyPlan sample_exec sample_clock sample_state 0
     = (Inr (failure sample_state ''Cannot verify: execution has not been performed.''), 0)"
proof -
  let ?vr = "\<lparr>results =
                 [\<lparr>step = ''docker inspect cache'', status = Success, exitCode = 0,
                   stdout = ''true'', stderr = [], timestamp = ''2024-01-15T10:30:00.000Z''\<rparr>,
                  \<lparr>step = ''docker inspect db'', status = Failure, exitCode = 1,
                   stdout = [], stderr = ''No such object: db'',
                   timestamp = ''2024-01-15T10:30:00.000Z''\<rparr>],
               failedAtStep = 1\<rparr>"
  obtain r w' where run: "verifyPlan sample_exec sample_clock sample_executed 0 = (r, w')"
    by (cases "verifyPlan sample_exec sample_clock sample_executed 0")
  have exe: "executeCommands sample_exec sample_clock (verification sample_plan) 0 = (?vr, 2)"
    by (simp add: executeCommands_def sample_exec_def sample_clock_def sample_plan_def
        numeral_2_eq_2)
  have "plan sample_executed = Some sample_plan
      \<and> executionResult sample_executed = Some
           \<lparr>results = [\<lparr>step = ''docker restart cache'', status = Success,
                         exitCode = 0, stdout = ''cache'', stderr = [],
                         timestamp = ''2024-01-15T10:29:00.000Z''\<rparr>],
            failedAtStep = - 1\<rparr>
      \<and> failedAtStep \<lparr>results = [\<lparr>step = ''docker restart cache'', status = Success,
                         exitCode = 0, stdout = ''cache'', stderr = [],
                         timestamp = ''2024-01-15T10:29:00.000Z''\<rparr>],
            failedAtStep = - 1\<rparr> = - 1
      \<and> verification sample_plan \<noteq> []
      \<and> executeCommands sample_exec sample_clock (verification sample_plan) 0 = (?vr, 2)"
    using exe by (simp add: sample_executed_def sample_state_def) (simp add: sample_plan_def)
  from verifyPlan_contract [OF run, THEN conjunct2, THEN conjunct2, THEN spec, THEN spec,
      THEN spec, THEN spec, THEN mp, OF this]
  have "w' = 2" and "\<exists>msg. r = Inr (failure
               (sample_executed\<lparr>verificationResult := Some ?vr,
                      failureContext := Some
                        \<lparr>fc_type = verification_failed,
                         fc_step = Some ''docker inspect db'',
                         fc_reason = Some ''Verification failed at step 2'',
                         fc_output = Some ''No such object: db''\<rparr>\<rparr>) msg)"
    by (simp_all add: sample_plan_def show_int_def)
  moreover have "verifyPlan sample_exec sample_clock sample_executed 0
     = (Inr (failure
          (sample_executed\<lparr>verificationResult := Some ?vr,
             failureContext := Some
               \<lparr>fc_type = verification_failed, fc_step = Some ''docker inspect db'',
                fc_reason = Some ''Verification failed at step 2'',
                fc_output = Some ''No such object: db''\<rparr>\<rparr>)
          ''Verification failed at step 2: No such object: db''), 2)"
    using exe
    by (simp add: verifyPlan_def sample_executed_def sample_state_def Let_def nth_opt_def
        show_int_def) (simp add: sample_plan_def)
  ultimately have a: "verifyPlan sample_exec sample_clock sample_executed 0
     = (Inr (failure
          (sample_executed\<lparr>verificationResult := Some ?vr,
             failureContext := Some
               \<lparr>fc_type = verification_failed, fc_step = Some ''docker inspect db'',
                fc_reason = Some ''Verification failed at step 2'',
                fc_output = Some ''No such object: db''\<rparr>\<rparr>)
          ''Verification failed at step 2: No such object: db''), 2)"
    by blast
  let ?s2 = "sample_executed\<lparr>plan := Some (sample_plan\<lparr>verification := []\<rparr>)\<rparr>"
  obtain r2 w2 where run2: "verifyPlan sample_exec sample_clock ?s2 0 = (r2, w2)"
    by (cases "verifyPlan sample_exec sample_clock ?s2 0")
  have "plan ?s2 = Some (sample_plan\<lparr>verification := []\<rparr>)
      \<and> executionResult ?s2 = Some
           \<lparr>results = [\<lparr>step = ''docker restart cache'', status = Success,
                         exitCode = 0, stdout = ''cache'', stderr = [],
                         timestamp = ''2024-01-15T10:29:00.000Z''\<rparr>],
            failedAtStep = - 1\<rparr>
      \<and> failedAtStep \<lparr>results = [\<lparr>step = ''docker restart cache'', status = Success,
                         exitCode = 0, stdout = ''cache'', stderr = [],
                         timestamp = ''2024-01-15T10:29:00.000Z''\<rparr>],
            failedAtStep = - 1\<rparr> = - 1
      \<and> verification (sample_plan\<lparr>verification := []\<rparr>) = []"
    by (simp add: sample_executed_def sample_state_def)
  from verifyPlan_contract [OF run2, THEN conjunct2, THEN conjunct1, THEN spec, THEN spec,
      THEN mp, OF this] run2
  have b: "verifyPlan sample_exec sample_clock ?s2 0
     = (Inr (success
          (?s2\<lparr>verificationResult := Some \<lparr>results = [], failedAtStep = - 1\<rparr>,
             resolution := resolved\<rparr>)
          (Some (VerificationData \<lparr>results = [], failedAtStep = - 1\<rparr> True))), 0)"
    by simp
  obtain r3 w3 where run3: "verifyPlan sample_exec sample_clock sample_state 0 = (r3, w3)"
    by (cases "verifyPlan sample_exec sample_clock sample_state 0")
  have "plan sample_state = None \<or> executionResult sample_state = None
      \<or> (\<exists>er. executionResult sample_state = Some er \<and> failedAtStep er \<noteq> - 1)"
    by (simp add: sample_state_def)
  from verifyPlan_contract [OF run3, THEN conjunct1, THEN mp, OF this]
  have "w3 = 0" "\<exists>msg. r3 = Inr (failure sample_state msg)" by simp_all
  moreover have "verifyPlan sample_exec sample_clock sample_state 0
     = (Inr (failure sample_state ''Cannot verify: execution has not been performed.''), 0)"
    by (simp add: verifyPlan_def sample_state_def)
  ultimately have c: "verifyPlan sample_exec sample_clock sample_state 0
     = (Inr (failure sample_state ''Cannot verify: execution has not been performed.''), 0)"
    by blast
  from a b c show ?thesis by (simp only: simp_thms)
qed

theorem planRemediation_contract_witness:
  "planRemediation sample_agent sample_knowledge ''services: {}''
       (sample_state\<lparr>failureContext := Some
          \<lparr>fc_type = user_rejected, fc_step = None, fc_reason = Some ''restart db as well'',
           fc_output = None\<rparr>, planValidated := True\<rparr>) 0
     = (Inr (success
          (sample_state\<lparr>plan := Some sample_plan,
             plannerHistory := [UserText ''plan'', ModelContent ''a plan''],
             planValidated := False\<rparr>)
          (Some (PlanRemediationData sample_plan))), 1)
 \<and> planRemediation sample_agent sample_knowledge ''services: {}''
       (sample_state\<lparr>feasibility := None\<rparr>) 0
     = (Inr (failure (sample_state\<lparr>feasibility := None\<rparr>)
               ''Cannot plan: feasibility not assessed.''), 0)"
proof -
  let ?fc = "\<lparr>fc_type = user_rejected, fc_step = None, fc_reason = Some ''restart db as well'',
           fc_output = None\<rparr>"
  let ?s = "sample_state\<lparr>failureContext := Some ?fc, planValidated := True\<rparr>"
  obtain r w' where run:
    "planRemediation sample_agent sample_knowledge ''services: {}'' ?s 0 = (r, w')"
    by (cases "planRemediation sample_agent sample_knowledge ''services: {}'' ?s 0")
  let ?g = "\<lparr>nodes = [\<lparr>node_container = ''cache'', node_type = ''container.cache.stopped'',
                    node_evidence = [''[0] Container stopped unexpectedly''],
                    node_timestamp = ''2024-01-15T10:30:00Z''\<rparr>],
         edges = [], root = Some 0, graph_summary = ''Cache stopped''\<rparr>"
  have "incidentGraph ?s = Some ?g \<and> nodes ?g \<noteq> []
      \<and> feasibility ?s = Some \<lparr>feasible = True, feas_summary = ''restart'', blocking_reason = None\<rparr>
      \<and> feasible \<lparr>feasible = True, feas_summary = ''restart'', blocking_reason = None\<rparr>
      \<and> (plan ?s = None \<or> failureContext ?s \<noteq> None)
      \<and> root ?g = Some 0
      \<and> nth_opt (nodes ?g) 0 = Some \<lparr>node_container = ''cache'',
                    node_type = ''container.cache.stopped'',
                    node_evidence = [''[0] Container stopped unexpectedly''],
                    node_timestamp = ''2024-01-15T10:30:00Z''\<rparr>
      \<and> sample_knowledge 0 = Inr None
      \<and> sample_agent \<lparr>pm_infrastructure = ''services: {}'', pm_knowledge = None, pm_graph = ?g,
                pm_rootNode = \<lparr>node_container = ''cache'',
                    node_type = ''container.cache.stopped'',
                    node_evidence = [''[0] Container stopped unexpectedly''],
                    node_timestamp = ''2024-01-15T10:30:00Z''\<rparr>,
                pm_previousPlan = (if failureContext ?s \<noteq> None then plan ?s else None),
                pm_failureContext = failureContext ?s\<rparr>
               (plannerHistory ?s) 0
          = (Inr (sample_plan, [UserText ''plan'', ModelContent ''a plan'']), 1)"
    by (simp add: sample_state_def nth_opt_def sample_knowledge_def sample_agent_def)
  from planRemediation_contract [OF run, THEN conjunct2, THEN conjunct2, THEN conjunct2,
      THEN spec, THEN spec, THEN spec, THEN spec, THEN spec, THEN spec, THEN spec, THEN spec,
      THEN mp, OF this] run
  have a: "planRemediation sample_agent sample_knowledge ''services: {}'' ?s 0
     = (Inr (success
          (sample_state\<lparr>plan := Some sample_plan,
             plannerHistory := [UserText ''plan'', ModelContent ''a plan''],
             planValidated := False\<rparr>)
          (Some (PlanRemediationData sample_plan))), 1)"
    by (simp add: sample_state_def)
  let ?t = "sample_state\<lparr>feasibility := None\<rparr>"
  obtain r2 w2 where run2:
    "planRemediation sample_agent sample_knowledge ''services: {}'' ?t 0 = (r2, w2)"
    by (cases "planRemediation sample_agent sample_knowledge ''services: {}'' ?t 0")
  have "\<not> (\<exists>fe. feasibility ?t = Some fe \<and> feasible fe
           \<and> (plan ?t = None \<or> (plan ?t \<noteq> None \<and> failureContext ?t \<noteq> None)))"
    by simp
  from planRemediation_contract [OF run2, THEN conjunct1, THEN mp, OF this]
  have "w2 = 0" "\<exists>msg. r2 = Inr (failure ?t msg)" by simp_all
  moreover have "planRemediation sample_agent sample_knowledge ''services: {}'' ?t 0
     = (Inr (failure ?t ''Cannot plan: feasibility not assessed.''), 0)"
    by (simp add: planRemediation_def sample_state_def)
  ultimately have b: "planRemediation sample_agent sample_knowledge ''services: {}'' ?t 0
     = (Inr (failure ?t ''Cannot plan: feasibility not assessed.''), 0)"
    by blast
  from a b show ?thesis by (rule conjI)
qed

section \<open>Properties of the orchestrator loop\<close>

lemma push_content_attempts [simp]:
  "attemptCount (push_content ctx c) = attemptCount ctx"
  "maxAttempts (push_content ctx c) = maxAttempts ctx"
  by (simp_all add: push_content_def)

lemma push_history_attempts [simp]:
  "attemptCount (push_history ctx h) = attemptCount ctx"
  "maxAttempts (push_history ctx h) = maxAttempts ctx"
  by (simp_all add: push_history_def)

lemma caught_attempts:
  assumes "caught ev0 msg state ctx w = (ev, out)"
    and "ev0 = ReasonerThrew \<or> (\<exists>n h. ev0 = HandlerThrew n h)"
  shows "ev = ev0 \<and> attempts_step ev ctx (outcome_context out)
       \<and> (\<exists>c w'. out = Next state c w')"
  using assms by (auto simp: caught_def attempts_step_def)

lemma circuit_breaker_attempts:
  assumes "circuit_breaker env state ctx w = (ev, out)"
  shows "attempts_step ev ctx (outcome_context out)
       \<and> (ev = CircuitBreakerDismiss \<or> ev = CircuitBreakerContext)
       \<and> (ev = CircuitBreakerDismiss \<longrightarrow>
            (\<exists>w'. out = Done \<lparr>or_state = state\<lparr>resolution := dismissed\<rparr>, or_idle = False\<rparr> ctx w'))
       \<and> (ev = CircuitBreakerContext \<longrightarrow> (\<exists>c w'. out = Next state c w'))"
  using assms
  by (auto simp: circuit_breaker_def attempts_step_def Let_def
      split: prod.splits EscalationResolution.splits)

lemma escalate_inline_attempts:
  assumes "escalate_inline env fc state ctx w = (ev, out)"
  shows "attempts_step ev ctx (outcome_context out)
       \<and> (ev = EscalateDismiss \<or> ev = EscalateContext)"
  using assms
  by (auto simp: escalate_inline_def attempts_step_def Let_def
      split: prod.splits EscalationResolution.splits)

lemma requestApproval_inline_attempts:
  assumes "requestApproval_inline env state ctx w = (ev, out)"
  shows "attempts_step ev ctx (outcome_context out)
       \<and> (ev = ApprovalGranted \<or> ev = ApprovalRejected)"
  using assms
  by (auto simp: requestApproval_inline_def attempts_step_def Let_def
      split: prod.splits ApprovalChoice.splits)

lemma generic_dispatch_attempts:
  assumes "generic_dispatch env name handler state ctx w = (ev, out)"
  shows "attempts_step ev ctx (outcome_context out)
       \<and> ((\<exists>idle. ev = Dispatched name (failureContext state \<noteq> None) idle)
            \<or> ev = HandlerThrew name (failureContext state \<noteq> None))
       \<and> (is_completed_replan ev \<and> attemptCount (outcome_context out) = attemptCount ctx \<longrightarrow>
            (\<exists>r c w'. out = Done r c w'))"
proof -
  obtain a w1 where h: "handler state w = (a, w1)" by (cases "handler state w")
  show ?thesis
  proof (cases a)
    case (Inl e)
    with assms h show ?thesis
      by (auto simp: generic_dispatch_def caught_def attempts_step_def)
  next
    case (Inr result)
    show ?thesis
    proof (cases "res_idle result = Some True")
      case True
      with assms h Inr show ?thesis
        by (simp add: generic_dispatch_def attempts_step_def Let_def del: not_None_eq) auto
    next
      case notidle: False
      show ?thesis
      proof (cases "name = ''planRemediation'' \<and> failureContext state \<noteq> None")
        case True
        with assms h Inr notidle show ?thesis
          by (simp add: generic_dispatch_def attempts_step_def Let_def del: not_None_eq) auto
      next
        case False
        with assms h Inr notidle show ?thesis
          by (simp add: generic_dispatch_def attempts_step_def Let_def del: not_None_eq) auto
      qed
    qed
  qed
qed

lemma iteration_attempts:
  assumes it: "orchestrator_iteration env state ctx w = (ev, out)"
  shows "attempts_step ev ctx (outcome_context out)
       \<and> (maxAttempts ctx \<le> attemptCount ctx \<longleftrightarrow>
            ev = CircuitBreakerDismiss \<or> ev = CircuitBreakerContext)
       \<and> (ev = CircuitBreakerDismiss \<longrightarrow>
            (\<exists>w'. out = Done \<lparr>or_state = state\<lparr>resolution := dismissed\<rparr>, or_idle = False\<rparr> ctx w'))
       \<and> (is_completed_replan ev \<and> attemptCount (outcome_context out) = attemptCount ctx \<longrightarrow>
            (\<exists>r c w'. out = Done r c w'))"
proof (cases "maxAttempts ctx \<le> attemptCount ctx")
  case True
  with it have "circuit_breaker env state ctx w = (ev, out)"
    by (simp add: orchestrator_iteration_def)
  from circuit_breaker_attempts [OF this] True show ?thesis by auto
next
  case False
  let ?ctx1 = "push_content ctx (UserText (''Current State:'' @ [CHR 0x0A] @ stringify env state))"
  obtain a w1 where g: "generateContent env (orchestratorConversationHistory ?ctx1) w = (a, w1)"
    by (cases "generateContent env (orchestratorConversationHistory ?ctx1) w")
  have step1: "attempts_step ev ?ctx1 c' \<Longrightarrow> attempts_step ev ctx c'" for c'
    by (simp add: attempts_step_def)
  show ?thesis
  proof (cases a)
    case (Inl e)
    with it False g have "caught ReasonerThrew e state ?ctx1 w1 = (ev, out)"
      by (simp add: orchestrator_iteration_def Let_def)
    from caught_attempts [OF this] False step1 show ?thesis by auto
  next
    case (Inr response)
    show ?thesis
    proof (cases "modelContent response")
      case None
      with it False g Inr
      have "caught ReasonerThrew ''Empty response from orchestrator'' state ?ctx1 w1 = (ev, out)"
        by (simp add: orchestrator_iteration_def Let_def)
      from caught_attempts [OF this] False step1 show ?thesis by auto
    next
      case (Some content)
      let ?ctx2 = "push_content ?ctx1 content"
      have step2: "attempts_step ev ?ctx2 c' \<Longrightarrow> attempts_step ev ctx c'" for c'
        by (simp add: attempts_step_def)
      show ?thesis
      proof (cases "functionCalls response")
        case Nil
        with it False g Inr Some show ?thesis
          by (auto simp: orchestrator_iteration_def Let_def attempts_step_def)
      next
        case (Cons functionCall others)
        show ?thesis
        proof (cases "CAPABILITY_REGISTRY env (call_name functionCall)")
          case Undefined
          with it False g Inr Some Cons
          have "caught ReasonerThrew (''Unknown capability: '' @ call_name functionCall)
                  state ?ctx2 w1 = (ev, out)"
            by (simp add: orchestrator_iteration_def Let_def)
          from caught_attempts [OF this] False step2 show ?thesis by auto
        next
          case Inherited
          with it False g Inr Some Cons
          have "caught ReasonerThrew
                  (''Cannot read properties of undefined (reading ''
                     @ [CHR 0x27] @ ''stage'' @ [CHR 0x27] @ '')'')
                  state ?ctx2 w1 = (ev, out)"
            by (simp add: orchestrator_iteration_def Let_def)
          from caught_attempts [OF this] False step2 show ?thesis by auto
        next
          case (Capability handler)
          note h = this
          consider (esc) "call_name functionCall = ''escalate''"
            | (app) "call_name functionCall = ''requestApproval''"
            | (gen) "call_name functionCall \<noteq> ''escalate''"
                    "call_name functionCall \<noteq> ''requestApproval''"
            by blast
          then show ?thesis
          proof cases
            case esc
            with it False g Inr \<open>modelContent response = Some content\<close> Cons h
            have "escalate_inline env functionCall state ?ctx2 w1 = (ev, out)"
              by (simp add: orchestrator_iteration_def Let_def)
            from escalate_inline_attempts [OF this] False step2 show ?thesis by auto
          next
            case app
            with it False g Inr \<open>modelContent response = Some content\<close> Cons h
            have "requestApproval_inline env state ?ctx2 w1 = (ev, out)"
              by (simp add: orchestrator_iteration_def Let_def)
            from requestApproval_inline_attempts [OF this] False step2 show ?thesis by auto
          next
            case gen
            with it False g Inr \<open>modelContent response = Some content\<close> Cons h
            have "generic_dispatch env (call_name functionCall) handler state ?ctx2 w1 = (ev, out)"
              by (simp add: orchestrator_iteration_def Let_def)
            from generic_dispatch_attempts [OF this] False step2 show ?thesis by auto
          qed
        qed
      qed
    qed
  qed
qed


lemma completed_replans_Cons: "completed_replans (ev # evs) = (if is_completed_replan ev then 1 else 0) + completed_replans evs"
  by (simp add: completed_replans_def)

lemma completed_replans_Nil: "completed_replans [] = 0"
  by (simp add: completed_replans_def)

lemma is_completed_replan_cases:
  "is_completed_replan ev \<longleftrightarrow> ev = Dispatched ''planRemediation'' True False
                     \<or> ev = Dispatched ''planRemediation'' True True"
  by (cases ev) auto

lemma loop_trace_no_reset:
  assumes "0 \<le> attemptCount ctx" and "attemptCount ctx \<le> maxAttempts ctx"
    and "CircuitBreakerContext \<notin> set (loop_trace n env state ctx w)"
  shows "int (completed_replans (loop_trace n env state ctx w)) \<le> maxAttempts ctx - attemptCount ctx"
  using assms
proof (induction n arbitrary: state ctx w)
  case 0
  then show ?case by (simp add: completed_replans_Nil)
next
  case (Suc n)
  show ?case
  proof (cases "resolution state = pending")
    case False
    with Suc.prems show ?thesis by (simp add: completed_replans_Nil)
  next
    case True
    obtain ev out where it: "orchestrator_iteration env state ctx w = (ev, out)"
      by (cases "orchestrator_iteration env state ctx w")
    note facts = iteration_attempts [OF it]
    from facts have st: "attempts_step ev ctx (outcome_context out)"
      and cb: "maxAttempts ctx \<le> attemptCount ctx \<longleftrightarrow>
                 ev = CircuitBreakerDismiss \<or> ev = CircuitBreakerContext"
      and idle: "is_completed_replan ev \<and> attemptCount (outcome_context out) = attemptCount ctx \<longrightarrow>
                   (\<exists>r c w'. out = Done r c w')"
      by blast+
    have room: "attemptCount ctx < maxAttempts ctx" if "is_completed_replan ev"
      using that cb by (auto simp: is_completed_replan_cases)
    show ?thesis
    proof (cases out)
      case (Done res ctx' w')
      with it True have tr: "loop_trace (Suc n) env state ctx w = [ev]" by simp
      show ?thesis
        unfolding tr using room Suc.prems(2) by (auto simp: completed_replans_Cons completed_replans_Nil)
    next
      case (Next state' ctx' w')
      with it True
      have tr: "loop_trace (Suc n) env state ctx w = ev # loop_trace n env state' ctx' w'"
        by simp
      from Suc.prems(3) tr have nr: "ev \<noteq> CircuitBreakerContext"
        and nr': "CircuitBreakerContext \<notin> set (loop_trace n env state' ctx' w')" by auto
      from st Next have mx: "maxAttempts ctx' = maxAttempts ctx"
        and ac: "attemptCount ctx' =
                   (if ev = Dispatched ''planRemediation'' True False then attemptCount ctx + 1
                    else attemptCount ctx)"
        using nr by (auto simp: attempts_step_def)
      show ?thesis
      proof (cases "is_completed_replan ev")
        case False
        with ac have same: "attemptCount ctx' = attemptCount ctx"
          by (auto simp: is_completed_replan_cases)
        from Suc.IH [of ctx' state' w'] Suc.prems(1,2) nr' same mx
        have "int (completed_replans (loop_trace n env state' ctx' w')) \<le> maxAttempts ctx - attemptCount ctx"
          by simp
        with False show ?thesis unfolding tr by (simp add: completed_replans_Cons)
      next
        case rp: True
        have "ev = Dispatched ''planRemediation'' True False"
        proof (rule ccontr)
          assume "ev \<noteq> Dispatched ''planRemediation'' True False"
          with ac have "attemptCount ctx' = attemptCount ctx" by simp
          with idle rp Next show False by simp
        qed
        with ac have up: "attemptCount ctx' = attemptCount ctx + 1" by simp
        from room [OF rp] have "attemptCount ctx + 1 \<le> maxAttempts ctx" by simp
        with Suc.IH [of ctx' state' w'] Suc.prems(1) nr' up mx
        have "int (completed_replans (loop_trace n env state' ctx' w'))
                \<le> maxAttempts ctx - (attemptCount ctx + 1)"
          by simp
        with rp show ?thesis unfolding tr by (simp add: completed_replans_Cons)
      qed
    qed
  qed
qed

lemma loop_trace_segment:
  assumes "0 \<le> attemptCount ctx" and "attemptCount ctx \<le> maxAttempts ctx"
    and "loop_trace n env state ctx w = pre @ seg"
    and "CircuitBreakerContext \<notin> set seg"
  shows "int (completed_replans seg) \<le> maxAttempts ctx"
  using assms
proof (induction n arbitrary: state ctx w pre)
  case 0
  then show ?case by (simp add: completed_replans_Nil)
next
  case (Suc n)
  show ?case
  proof (cases pre)
    case Nil
    with Suc.prems(3,4)
    have "CircuitBreakerContext \<notin> set (loop_trace (Suc n) env state ctx w)" by simp
    from loop_trace_no_reset [OF Suc.prems(1,2) this] Suc.prems(1,3) Nil
    show ?thesis by simp
  next
    case (Cons e pre')
    show ?thesis
    proof (cases "resolution state = pending")
      case False
      with Suc.prems(3) Cons show ?thesis by simp
    next
      case True
      obtain ev out where it: "orchestrator_iteration env state ctx w = (ev, out)"
        by (cases "orchestrator_iteration env state ctx w")
      note facts = iteration_attempts [OF it]
      from facts have st: "attempts_step ev ctx (outcome_context out)"
        and cb: "maxAttempts ctx \<le> attemptCount ctx \<longleftrightarrow>
                   ev = CircuitBreakerDismiss \<or> ev = CircuitBreakerContext"
        by blast+
      show ?thesis
      proof (cases out)
        case (Done res ctx' w')
        with it True have "loop_trace (Suc n) env state ctx w = [ev]" by simp
        with Suc.prems(3) Cons have "seg = []" by simp
        with Suc.prems(1,2) show ?thesis by (simp add: completed_replans_Nil)
      next
        case (Next state' ctx' w')
        with it True
        have "loop_trace (Suc n) env state ctx w = ev # loop_trace n env state' ctx' w'"
          by simp
        with Suc.prems(3) Cons have rest: "loop_trace n env state' ctx' w' = pre' @ seg"
          by simp
        from st Next have mx: "maxAttempts ctx' = maxAttempts ctx"
          and ac: "attemptCount ctx' =
             (if ev = Dispatched ''planRemediation'' True False then attemptCount ctx + 1
              else if ev = CircuitBreakerContext then 0
              else attemptCount ctx)"
          by (auto simp: attempts_step_def)
        from ac cb Suc.prems(1,2)
        have "0 \<le> attemptCount ctx'" "attemptCount ctx' \<le> maxAttempts ctx'"
          unfolding mx by (auto split: if_splits)
        from Suc.IH [OF this rest Suc.prems(4)] mx show ?thesis by simp
      qed
    qed
  qed
qed

lemma replans_split:
  "replans evs
     = completed_replans evs
       + length (filter (\<lambda>ev. ev = HandlerThrew ''planRemediation'' True) evs)"
proof (induction evs)
  case Nil
  show ?case by (simp add: replans_def completed_replans_def)
next
  case (Cons ev evs)
  then show ?case by (cases ev) (auto simp: replans_def completed_replans_def)
qed

text \<open>
  C6, as the code has it. In every run of the loop: \<open>attemptCount\<close> goes up, by one, only
  in a pass that called the \<open>planRemediation\<close> handler while a \<open>failureContext\<close> was
  present and in which the handler returned; a call that throws is caught by the loop and
  leaves the counter as it was. A pass that begins with \<open>attemptCount \<ge> maxAttempts\<close> is
  the circuit breaker and nothing else, so the human is asked before the reasoner or any
  capability is called again; the counter goes back to \<open>0\<close> only when the user answers
  the circuit breaker with context, and a dismissal ends the loop with \<open>resolution =
  dismissed\<close>. Hence, from the initial context with \<open>maxAttempts \<ge> 0\<close>, any stretch of a
  run without such a context injection holds at most \<open>maxAttempts\<close> completed replans; the
  replans of a stretch are its completed replans and the calls that threw.
\<close>

theorem completed_replans_bounded:
  assumes "0 \<le> maxActionsPerIncident"
  shows
  "(\<forall>n pre seg.
      loop_trace n env (createInitialState lgs) (createInitialContext maxActionsPerIncident) w
        = pre @ seg
      \<and> CircuitBreakerContext \<notin> set seg \<longrightarrow>
      int (completed_replans seg) \<le> maxActionsPerIncident)
 \<and> (\<forall>state ctx w0 ev out.
      orchestrator_iteration env state ctx w0 = (ev, out) \<longrightarrow>
        maxAttempts (outcome_context out) = maxAttempts ctx
      \<and> attemptCount (outcome_context out) =
          (if ev = Dispatched ''planRemediation'' True False then attemptCount ctx + 1
           else if ev = CircuitBreakerContext then 0
           else attemptCount ctx)
      \<and> (maxAttempts ctx \<le> attemptCount ctx \<longleftrightarrow>
            ev = CircuitBreakerDismiss \<or> ev = CircuitBreakerContext)
      \<and> (maxAttempts ctx \<le> attemptCount ctx \<longrightarrow>
            (ev, out) = circuit_breaker env state ctx w0)
      \<and> (ev = CircuitBreakerDismiss \<longrightarrow>
            (\<exists>w'. out = Done \<lparr>or_state = state\<lparr>resolution := dismissed\<rparr>, or_idle = False\<rparr>
                           ctx w')))
 \<and> (\<forall>evs. replans evs
            = completed_replans evs
              + length (filter (\<lambda>ev. ev = HandlerThrew ''planRemediation'' True) evs))"
  (is "?P1 \<and> ?P2 \<and> ?P3")
proof -
  have p1: ?P1
  proof (intro allI impI)
    fix n pre seg
    assume a: "loop_trace n env (createInitialState lgs)
                 (createInitialContext maxActionsPerIncident) w = pre @ seg
               \<and> CircuitBreakerContext \<notin> set seg"
    have "0 \<le> attemptCount (createInitialContext maxActionsPerIncident)"
      "attemptCount (createInitialContext maxActionsPerIncident)
         \<le> maxAttempts (createInitialContext maxActionsPerIncident)"
      using assms by (simp_all add: createInitialContext_def)
    from loop_trace_segment [OF this conjunct1 [OF a] conjunct2 [OF a]]
    show "int (completed_replans seg) \<le> maxActionsPerIncident"
      by (simp add: createInitialContext_def)
  qed
  have p2: ?P2
  proof (intro allI impI)
    fix state ctx w0 ev out
    assume it: "orchestrator_iteration env state ctx w0 = (ev, out)"
    from iteration_attempts [OF it]
    have st: "attempts_step ev ctx (outcome_context out)"
      and cb: "maxAttempts ctx \<le> attemptCount ctx \<longleftrightarrow>
                 ev = CircuitBreakerDismiss \<or> ev = CircuitBreakerContext"
      and dm: "ev = CircuitBreakerDismiss \<longrightarrow>
            (\<exists>w'. out = Done \<lparr>or_state = state\<lparr>resolution := dismissed\<rparr>, or_idle = False\<rparr>
                           ctx w')"
      by blast+
    have "maxAttempts ctx \<le> attemptCount ctx \<longrightarrow> (ev, out) = circuit_breaker env state ctx w0"
    proof
      assume "maxAttempts ctx \<le> attemptCount ctx"
      with it show "(ev, out) = circuit_breaker env state ctx w0"
        by (simp add: orchestrator_iteration_def)
    qed
    with st cb dm show
      "maxAttempts (outcome_context out) = maxAttempts ctx
      \<and> attemptCount (outcome_context out) =
          (if ev = Dispatched ''planRemediation'' True False then attemptCount ctx + 1
           else if ev = CircuitBreakerContext then 0
           else attemptCount ctx)
      \<and> (maxAttempts ctx \<le> attemptCount ctx \<longleftrightarrow>
            ev = CircuitBreakerDismiss \<or> ev = CircuitBreakerContext)
      \<and> (maxAttempts ctx \<le> attemptCount ctx \<longrightarrow>
            (ev, out) = circuit_breaker env state ctx w0)
      \<and> (ev = CircuitBreakerDismiss \<longrightarrow>
            (\<exists>w'. out = Done \<lparr>or_state = state\<lparr>resolution := dismissed\<rparr>, or_idle = False\<rparr>
                           ctx w'))"
      unfolding attempts_step_def by blast
  qed
  have p3: ?P3 using replans_split by blast
  from p1 p2 p3 show ?thesis by (rule conjI [OF _ conjI])
qed


theorem completed_replans_bounded_witness:
  "loop_trace 9 (sample_env ''planRemediation'') (createInitialState [''[cache] stopped''])
     (createInitialContext 1) 0
   = [Dispatched ''planRemediation'' False False, Dispatched ''planRemediation'' True False,
      CircuitBreakerContext, Dispatched ''planRemediation'' True False,
      CircuitBreakerContext]
     @ [Dispatched ''planRemediation'' True False, CircuitBreakerDismiss]
 \<and> int (completed_replans [Dispatched ''planRemediation'' True False, CircuitBreakerDismiss]) \<le> 1"
proof -
  have tr: "loop_trace 9 (sample_env ''planRemediation'')
       (createInitialState [''[cache] stopped'']) (createInitialContext 1) 0
     = [Dispatched ''planRemediation'' False False, Dispatched ''planRemediation'' True False,
        CircuitBreakerContext, Dispatched ''planRemediation'' True False,
        CircuitBreakerContext]
       @ [Dispatched ''planRemediation'' True False, CircuitBreakerDismiss]"
    by code_simp
  have seg: "CircuitBreakerContext
               \<notin> set [Dispatched ''planRemediation'' True False, CircuitBreakerDismiss]"
    by simp
  have "(0::int) \<le> 1" by simp
  from completed_replans_bounded [OF this, THEN conjunct1, THEN spec, THEN spec, THEN spec, THEN mp,
      OF conjI [OF tr seg]] tr
  show ?thesis by (rule conjI [OF _ _, rotated])
qed

text \<open>
  C6 as stated fails: a call of \<open>planRemediation\<close> made while a \<open>failureContext\<close> is
  present that throws is not counted. With \<open>maxAttempts = 1\<close>, after the user has rejected
  the plan the loop makes three such calls in a row and the circuit breaker never opens.
\<close>

theorem replans_counterexample:
  "loop_trace 7 unreadable_knowledge_env (createInitialState [''[cache] stopped''])
     (createInitialContext 1) 0
   = [Dispatched ''analyzeIncident'' False False, Dispatched ''assessFeasibility'' False False,
      Dispatched ''planRemediation'' False False, ApprovalRejected]
     @ [HandlerThrew ''planRemediation'' True, HandlerThrew ''planRemediation'' True,
        HandlerThrew ''planRemediation'' True]
 \<and> CircuitBreakerContext
     \<notin> set [HandlerThrew ''planRemediation'' True, HandlerThrew ''planRemediation'' True,
             HandlerThrew ''planRemediation'' True]
 \<and> replans [HandlerThrew ''planRemediation'' True, HandlerThrew ''planRemediation'' True,
             HandlerThrew ''planRemediation'' True] = 3
 \<and> \<not> int 3 \<le> maxAttempts (createInitialContext 1)"
proof -
  have 1: "loop_trace 7 unreadable_knowledge_env (createInitialState [''[cache] stopped''])
     (createInitialContext 1) 0
   = [Dispatched ''analyzeIncident'' False False, Dispatched ''assessFeasibility'' False False,
      Dispatched ''planRemediation'' False False, ApprovalRejected]
     @ [HandlerThrew ''planRemediation'' True, HandlerThrew ''planRemediation'' True,
        HandlerThrew ''planRemediation'' True]"
    by code_simp
  have 2: "CircuitBreakerContext
     \<notin> set [HandlerThrew ''planRemediation'' True, HandlerThrew ''planRemediation'' True,
             HandlerThrew ''planRemediation'' True]" by simp
  have 3: "replans [HandlerThrew ''planRemediation'' True, HandlerThrew ''planRemediation'' True,
             HandlerThrew ''planRemediation'' True] = 3"
    by (simp add: replans_def)
  have 4: "\<not> int 3 \<le> maxAttempts (createInitialContext 1)"
    by (simp add: createInitialContext_def)
  from 1 2 3 4 show ?thesis by (rule conjI [OF _ conjI [OF _ conjI]])
qed

text \<open>
  C9. When the reasoner asks for \<open>requestApproval\<close> and the user rejects the plan with
  some feedback, the pass sets \<open>failureContext\<close> to \<open>{type: user_rejected, reason:
  feedback}\<close>, \<open>planValidated\<close> to false and \<open>executionResult\<close> and \<open>verificationResult\<close>
  to null, and leaves every other field of the state (\<open>plan\<close>, \<open>logs\<close>, \<open>incidentGraph\<close>,
  \<open>feasibility\<close>, \<open>plannerHistory\<close>, \<open>resolution\<close>) as it was; when the user approves, the
  state is not changed at all.
\<close>

theorem requestApproval_frame:
  assumes "attemptCount ctx < maxAttempts ctx"
    and "generateContent env
           (orchestratorConversationHistory ctx
              @ [UserText (''Current State:'' @ [CHR 0x0A] @ stringify env state)]) w
         = (Inr response, w1)"
    and "modelContent response = Some content"
    and "functionCalls response = functionCall # others"
    and "call_name functionCall = ''requestApproval''"
  shows
  "(\<forall>feedback w2. askPlanApproval env w1 = (Reject feedback, w2) \<longrightarrow>
      (\<exists>ctx'. orchestrator_iteration env state ctx w =
         (ApprovalRejected,
          Next (state\<lparr>failureContext := Some
                         \<lparr>fc_type = user_rejected, fc_step = None,
                          fc_reason = Some feedback, fc_output = None\<rparr>,
                       planValidated := False,
                       executionResult := None,
                       verificationResult := None\<rparr>) ctx' w2)
         \<and> attemptCount ctx' = attemptCount ctx))
 \<and> (\<forall>w2. askPlanApproval env w1 = (Approve, w2) \<longrightarrow>
      (\<exists>ctx'. orchestrator_iteration env state ctx w = (ApprovalGranted, Next state ctx' w2)))
 \<and> (\<forall>feedback s'.
      s' = state\<lparr>failureContext := Some
                         \<lparr>fc_type = user_rejected, fc_step = None,
                          fc_reason = Some feedback, fc_output = None\<rparr>,
                       planValidated := False,
                       executionResult := None,
                       verificationResult := None\<rparr> \<longrightarrow>
      plan s' = plan state \<and> logs s' = logs state \<and> incidentGraph s' = incidentGraph state
      \<and> feasibility s' = feasibility state \<and> plannerHistory s' = plannerHistory state
      \<and> resolution s' = resolution state)"
  (is "?P1 \<and> ?P2 \<and> ?P3")
proof -
  let ?ctx1 = "push_content ctx (UserText (''Current State:'' @ [CHR 0x0A] @ stringify env state))"
  have reg: "CAPABILITY_REGISTRY env ''requestApproval''
      = Capability
          (\<lambda>state w. (Inl ''requestApproval is handled inline in the orchestration loop'', w))"
    by (simp add: CAPABILITY_REGISTRY_def)
  have it: "orchestrator_iteration env state ctx w
              = requestApproval_inline env state (push_content ?ctx1 content) w1"
    using assms reg by (simp add: orchestrator_iteration_def Let_def push_content_def)
  have p1: ?P1
    by (simp add: it requestApproval_inline_def)
  have p2: ?P2
    by (simp add: it requestApproval_inline_def)
  have p3: ?P3 by simp
  from p1 p2 p3 show ?thesis by (rule conjI [OF _ conjI])
qed

theorem requestApproval_frame_witness:
  "orchestrator_iteration (sample_env ''requestApproval'')
      (sample_state\<lparr>planValidated := True\<rparr>) (createInitialContext 3) 0
   = (ApprovalRejected,
      Next (sample_state\<lparr>failureContext := Some
                           \<lparr>fc_type = user_rejected, fc_step = None,
                            fc_reason = Some ''restart db as well'', fc_output = None\<rparr>\<rparr>)
        \<lparr>attemptCount = 0, maxAttempts = 3,
         history = [\<lparr>he_timestamp = ''2024-01-15T10:30:00.000Z'',
                     he_capability = ''requestApproval'', he_success = False,
                     he_summary = ''User rejected: restart db as well''\<rparr>],
         orchestratorConversationHistory =
           [UserText (''Current State:'' @ [CHR 0x0A] @ ''{}''),
            ModelContent ''thinking'',
            FunctionResponse ''requestApproval'' False
              (''User rejected the plan. Feedback: '' @ [CHR 0x22] @ ''restart db as well''
                 @ [CHR 0x22]
                 @ ''. Use planRemediation to create a revised plan addressing this feedback.'')]\<rparr>
        2)"
proof -
  let ?env = "sample_env ''requestApproval''"
  let ?st = "sample_state\<lparr>planValidated := True\<rparr>"
  let ?resp = "\<lparr>modelContent = Some (ModelContent ''thinking''),
                 functionCalls = [\<lparr>call_name = ''requestApproval'', call_reason = ''stuck'',
                                   call_needed_context = ''limits''\<rparr>]\<rparr>"
  have h1: "attemptCount (createInitialContext 3) < maxAttempts (createInitialContext 3)"
    by (simp add: createInitialContext_def)
  have h2: "generateContent ?env
           (orchestratorConversationHistory (createInitialContext 3)
              @ [UserText (''Current State:'' @ [CHR 0x0A] @ stringify ?env ?st)]) 0
         = (Inr ?resp, 1)"
    by (simp add: sample_env_def)
  have h3: "modelContent ?resp = Some (ModelContent ''thinking'')" by simp
  have h4: "functionCalls ?resp = \<lparr>call_name = ''requestApproval'', call_reason = ''stuck'',
                                   call_needed_context = ''limits''\<rparr> # []" by simp
  have h5: "call_name \<lparr>call_name = ''requestApproval'', call_reason = ''stuck'',
                                   call_needed_context = ''limits''\<rparr> = ''requestApproval''"
    by simp
  have ask: "askPlanApproval ?env 1 = (Reject ''restart db as well'', 2)"
    by (simp add: sample_env_def numeral_2_eq_2)
  from requestApproval_frame [OF h1 h2 h3 h4 h5, THEN conjunct1, THEN spec, THEN spec,
      THEN mp, OF ask]
  obtain ctx' where
    "orchestrator_iteration ?env ?st (createInitialContext 3) 0 =
         (ApprovalRejected,
          Next (?st\<lparr>failureContext := Some
                         \<lparr>fc_type = user_rejected, fc_step = None,
                          fc_reason = Some ''restart db as well'', fc_output = None\<rparr>,
                       planValidated := False,
                       executionResult := None,
                       verificationResult := None\<rparr>) ctx' 2)"
    by blast
  moreover have "orchestrator_iteration ?env ?st (createInitialContext 3) 0
   = (ApprovalRejected,
      Next (sample_state\<lparr>failureContext := Some
                           \<lparr>fc_type = user_rejected, fc_step = None,
                            fc_reason = Some ''restart db as well'', fc_output = None\<rparr>\<rparr>)
        \<lparr>attemptCount = 0, maxAttempts = 3,
         history = [\<lparr>he_timestamp = ''2024-01-15T10:30:00.000Z'',
                     he_capability = ''requestApproval'', he_success = False,
                     he_summary = ''User rejected: restart db as well''\<rparr>],
         orchestratorConversationHistory =
           [UserText (''Current State:'' @ [CHR 0x0A] @ ''{}''),
            ModelContent ''thinking'',
            FunctionResponse ''requestApproval'' False
              (''User rejected the plan. Feedback: '' @ [CHR 0x22] @ ''restart db as well''
                 @ [CHR 0x22]
                 @ ''. Use planRemediation to create a revised plan addressing this feedback.'')]\<rparr>
        2)"
    by code_simp
  ultimately show ?thesis by simp
qed

section \<open>Properties of the log observer\<close>

lemma str_includes_iff: "str_includes s k \<longleftrightarrow> (\<exists>a b. s = a @ k @ b)"
proof (induction s)
  case Nil
  then show ?case by (auto simp: starts_with_iff)
next
  case (Cons x xs)
  show ?case
  proof
    assume "str_includes (x # xs) k"
    then consider "starts_with (x # xs) k" | "str_includes xs k" by auto
    then show "\<exists>a b. x # xs = a @ k @ b"
    proof cases
      case 1
      then obtain b where "x # xs = k @ b" by (auto simp: starts_with_iff)
      then have "x # xs = [] @ k @ b" by simp
      then show ?thesis by blast
    next
      case 2
      with Cons.IH obtain a b where "xs = a @ k @ b" by blast
      then have "x # xs = (x # a) @ k @ b" by simp
      then show ?thesis by blast
    qed
  next
    assume "\<exists>a b. x # xs = a @ k @ b"
    then obtain a b where ab: "x # xs = a @ k @ b" by blast
    show "str_includes (x # xs) k"
    proof (cases a)
      case Nil
      with ab have "starts_with (x # xs) k" by (auto simp: starts_with_iff)
      then show ?thesis by simp
    next
      case (Cons y ys)
      with ab have "xs = ys @ k @ b" by simp
      with Cons.IH have "str_includes xs k" by blast
      then show ?thesis by simp
    qed
  qed
qed

lemma some_keyword_iff: "some_keyword ks lower \<longleftrightarrow> (\<exists>k \<in> set ks. str_includes lower k)"
  by (induction ks) auto

lemma some_pattern_iff:
  "some_pattern ps msg \<longleftrightarrow> (\<exists>p \<in> set ps. rx_test (snd p) (fst p) msg)"
  by (induction ps) auto

lemma lower_char_eq:
  assumes "\<not> digit7 y" and "\<not> is_upper y"
  shows "lower_char x = y \<longleftrightarrow> same_letter x y"
proof -
  have sl: "same_letter x y \<longleftrightarrow> x = y \<or> ascii_lower x = Some y"
    unfolding same_letter_def ascii_lower_Some [symmetric]
    using ascii_lower_None [OF assms(2)] by simp
  show ?thesis
  proof (cases "ascii_lower x")
    case (Some l)
    then have "is_upper x" using ascii_lower_None [of x] by auto
    with assms(2) have "x \<noteq> y" by auto
    with Some show ?thesis unfolding sl by (simp add: lower_char_def)
  next
    case None
    show ?thesis
    proof (cases "digit7 x \<and> 192 \<le> (of_char x :: nat) \<and> (of_char x :: nat) \<le> 222
               \<and> (of_char x :: nat) \<noteq> 215")
      case True
      then have "lower_char x = char_of ((of_char x :: nat) + 32)"
        by (simp add: lower_char_def None)
      moreover from True have "digit7 (char_of ((of_char x :: nat) + 32))"
        by (intro digit7_char_of) auto
      ultimately have "lower_char x \<noteq> y" using assms(1) by auto
      moreover from True assms(1) have "x \<noteq> y" by auto
      ultimately show ?thesis unfolding sl by (simp add: None)
    next
      case False
      then have "lower_char x = x" by (auto simp: lower_char_def None)
      then show ?thesis unfolding sl by (simp add: None)
    qed
  qed
qed

lemma starts_with_toLowerCase:
  assumes "\<forall>y \<in> set k. \<not> digit7 y \<and> \<not> is_upper y"
  shows "starts_with (toLowerCase s) k \<longleftrightarrow> starts_with_ignoring_case s k"
  using assms
proof (induction s k rule: starts_with_ignoring_case.induct)
  case (1 s)
  then show ?case by simp
next
  case (2 k ks)
  then show ?case by (simp add: toLowerCase_def)
next
  case (3 x xs k ks)
  then have "lower_char x = k \<longleftrightarrow> same_letter x k" by (intro lower_char_eq) simp_all
  with 3 show ?case by (simp add: toLowerCase_def)
qed

lemma str_includes_toLowerCase:
  assumes "\<forall>y \<in> set k. \<not> digit7 y \<and> \<not> is_upper y"
  shows "str_includes (toLowerCase s) k \<longleftrightarrow> includes_ignoring_case s k"
proof (induction s)
  case Nil
  show ?case using starts_with_toLowerCase [OF assms, of "[]"] by (simp add: toLowerCase_def)
next
  case (Cons x xs)
  show ?case
    using starts_with_toLowerCase [OF assms, of "x # xs"] Cons.IH
    by (simp add: toLowerCase_def)
qed

lemma some_keyword_toLowerCase:
  assumes "\<forall>k \<in> set ks. \<forall>y \<in> set k. \<not> digit7 y \<and> \<not> is_upper y"
  shows "some_keyword ks (toLowerCase s) \<longleftrightarrow> (\<exists>k \<in> set ks. includes_ignoring_case s k)"
  unfolding some_keyword_iff using assms str_includes_toLowerCase by blast

lemma LIFECYCLE_KEYWORDS_plain:
  "\<forall>k \<in> set LIFECYCLE_KEYWORDS. \<forall>y \<in> set k. \<not> digit7 y \<and> \<not> is_upper y"
  by (simp add: LIFECYCLE_KEYWORDS_def is_upper_def)

lemma ERROR_KEYWORDS_plain:
  "\<forall>k \<in> set ERROR_KEYWORDS. \<forall>y \<in> set k. \<not> digit7 y \<and> \<not> is_upper y"
  by (simp add: ERROR_KEYWORDS_def is_upper_def)

lemma starts_with_ignoring_case_iff:
  "starts_with_ignoring_case s k \<longleftrightarrow> (\<exists>u b. s = u @ b \<and> list_all2 same_letter u k)"
proof (induction s k rule: starts_with_ignoring_case.induct)
  case (1 s)
  then show ?case by simp
next
  case (2 k ks)
  then show ?case by simp
next
  case (3 x xs k ks)
  show ?case
  proof
    assume "starts_with_ignoring_case (x # xs) (k # ks)"
    with 3 obtain u b where "same_letter x k" "xs = u @ b" "list_all2 same_letter u ks"
      by auto
    then have "x # xs = (x # u) @ b \<and> list_all2 same_letter (x # u) (k # ks)" by simp
    then show "\<exists>u b. x # xs = u @ b \<and> list_all2 same_letter u (k # ks)" by blast
  next
    assume "\<exists>u b. x # xs = u @ b \<and> list_all2 same_letter u (k # ks)"
    then obtain u b where u: "x # xs = u @ b" "list_all2 same_letter u (k # ks)" by blast
    from u(2) obtain v vs where v: "u = v # vs" "same_letter v k" "list_all2 same_letter vs ks"
      by (auto simp: list_all2_Cons2)
    with u(1) have "x = v" "xs = vs @ b" by simp_all
    with v 3 show "starts_with_ignoring_case (x # xs) (k # ks)" by auto
  qed
qed

lemma includes_ignoring_case_iff:
  "includes_ignoring_case s k \<longleftrightarrow> (\<exists>a u b. s = a @ u @ b \<and> list_all2 same_letter u k)"
proof (induction s)
  case Nil
  show ?case by (auto simp: starts_with_ignoring_case_iff)
next
  case (Cons x xs)
  show ?case
  proof
    assume "includes_ignoring_case (x # xs) k"
    then consider "starts_with_ignoring_case (x # xs) k" | "includes_ignoring_case xs k" by auto
    then show "\<exists>a u b. x # xs = a @ u @ b \<and> list_all2 same_letter u k"
    proof cases
      case 1
      then obtain u b where "x # xs = [] @ u @ b" "list_all2 same_letter u k"
        by (auto simp: starts_with_ignoring_case_iff)
      then show ?thesis by blast
    next
      case 2
      with Cons.IH obtain a u b where "xs = a @ u @ b" "list_all2 same_letter u k" by blast
      then have "x # xs = (x # a) @ u @ b \<and> list_all2 same_letter u k" by simp
      then show ?thesis by blast
    qed
  next
    assume "\<exists>a u b. x # xs = a @ u @ b \<and> list_all2 same_letter u k"
    then obtain a u b where ab: "x # xs = a @ u @ b" "list_all2 same_letter u k" by blast
    show "includes_ignoring_case (x # xs) k"
    proof (cases a)
      case Nil
      with ab have "starts_with_ignoring_case (x # xs) k"
        unfolding starts_with_ignoring_case_iff by auto
      then show ?thesis by simp
    next
      case (Cons y ys)
      with ab have "xs = ys @ u @ b" by simp
      with ab(2) Cons.IH have "includes_ignoring_case xs k" by blast
      then show ?thesis by simp
    qed
  qed
qed

lemma rx_test_Alt: "rx_test ci (Alt a b) s \<longleftrightarrow> rx_test ci a s \<or> rx_test ci b s"
  unfolding rx_test_def test_from_split by auto

lemma rx_test_upper_level:
  "rx_test False rx_upper_level s \<longleftrightarrow>
     (\<exists>w \<in> set [''ERROR'', ''FATAL'', ''CRITICAL'', ''SEVERE'']. str_includes s w)"
  by (simp add: rx_upper_level_def rx_test_Alt rx_test_lits)

text \<open>
  C8, as the code has it. The filter includes an event if and only if its message
  contains none of the lifecycle keywords, without regard to case, and then the stream is
  \<open>stderr\<close>, or the message contains one of the error keywords, without regard to case,
  or the message matches one of the seven expressions for the HTTP status forms and the
  structured log levels, or the message contains one of the words \<open>ERROR\<close>, \<open>FATAL\<close>,
  \<open>CRITICAL\<close>, \<open>SEVERE\<close> in upper case. In particular an event on \<open>stderr\<close> whose
  message contains a lifecycle keyword is dropped. Containment without regard to case
  means that some stretch of the message is the keyword letter by letter, up to the
  case of the 26 letters; the expressions with the \<open>i\<close> flag compare their literal
  characters in the same way.
\<close>

theorem shouldInclude_iff:
  "(shouldInclude event \<longleftrightarrow>
      \<not> (\<exists>k \<in> set LIFECYCLE_KEYWORDS. includes_ignoring_case (ev_message event) k)
    \<and> (ev_stream event = Stderr
       \<or> (\<exists>k \<in> set ERROR_KEYWORDS. includes_ignoring_case (ev_message event) k)
       \<or> rx_test False rx_http_status (ev_message event)
       \<or> rx_test True rx_status_code (ev_message event)
       \<or> rx_test False rx_json_status (ev_message event)
       \<or> rx_test False rx_status_text (ev_message event)
       \<or> rx_test True rx_json_level (ev_message event)
       \<or> rx_test True rx_level_eq (ev_message event)
       \<or> rx_test True rx_level_bracket (ev_message event)
       \<or> (\<exists>w \<in> set [''ERROR'', ''FATAL'', ''CRITICAL'', ''SEVERE''].
             \<exists>a b. ev_message event = a @ w @ b)))
 \<and> (ev_stream event = Stderr
      \<and> (\<exists>k \<in> set LIFECYCLE_KEYWORDS. includes_ignoring_case (ev_message event) k)
    \<longrightarrow> \<not> shouldInclude event)
 \<and> (\<forall>s k. includes_ignoring_case s k \<longleftrightarrow>
             (\<exists>a u b. s = a @ u @ b \<and> list_all2 same_letter u k))
 \<and> (\<forall>c x. \<not> digit7 c \<longrightarrow> (char_matches True c x \<longleftrightarrow> same_letter x c))"
  (is "?A \<and> ?B \<and> ?C \<and> ?D")
proof -
  let ?m = "ev_message event"
  have lk: "isLifecycleEvent ?m \<longleftrightarrow>
      (\<exists>k \<in> set LIFECYCLE_KEYWORDS. includes_ignoring_case ?m k)"
    unfolding isLifecycleEvent_def Let_def
    by (rule some_keyword_toLowerCase [OF LIFECYCLE_KEYWORDS_plain])
  have ek: "some_keyword ERROR_KEYWORDS (toLowerCase ?m) \<longleftrightarrow>
      (\<exists>k \<in> set ERROR_KEYWORDS. includes_ignoring_case ?m k)"
    by (rule some_keyword_toLowerCase [OF ERROR_KEYWORDS_plain])
  have pt: "some_pattern ERROR_PATTERNS ?m \<longleftrightarrow>
         rx_test False rx_http_status ?m
       \<or> rx_test True rx_status_code ?m
       \<or> rx_test False rx_json_status ?m
       \<or> rx_test False rx_status_text ?m
       \<or> rx_test True rx_json_level ?m
       \<or> rx_test True rx_level_eq ?m
       \<or> rx_test True rx_level_bracket ?m
       \<or> (\<exists>w \<in> set [''ERROR'', ''FATAL'', ''CRITICAL'', ''SEVERE''].
             \<exists>a b. ?m = a @ w @ b)"
    unfolding str_includes_iff [symmetric] rx_test_upper_level [symmetric]
    by (simp add: ERROR_PATTERNS_def)
  have hi: "hasErrorIndicator event \<longleftrightarrow>
      some_keyword ERROR_KEYWORDS (toLowerCase ?m) \<or> some_pattern ERROR_PATTERNS ?m"
    by (simp add: hasErrorIndicator_def Let_def)
  have si: "shouldInclude event \<longleftrightarrow>
      \<not> isLifecycleEvent ?m \<and> (ev_stream event = Stderr \<or> hasErrorIndicator event)"
    by (simp add: shouldInclude_def)
  have a: ?A unfolding si hi lk ek pt by (rule refl)
  have b: ?B unfolding si lk by blast
  have c: ?C using includes_ignoring_case_iff by blast
  have d: ?D using char_matches_same_letter by blast
  from a b c d show ?thesis by (rule conjI [OF _ conjI [OF _ conjI]])
qed

theorem shouldInclude_iff_witness:
  "shouldInclude sample_error_event \<and> \<not> shouldInclude sample_shutdown_event"
proof -
  have "\<not> list_ex (includes_ignoring_case (ev_message sample_error_event)) LIFECYCLE_KEYWORDS"
    by code_simp
  then have nl: "\<not> (\<exists>k \<in> set LIFECYCLE_KEYWORDS.
                     includes_ignoring_case (ev_message sample_error_event) k)"
    unfolding list_ex_iff .
  have "list_ex (includes_ignoring_case (ev_message sample_error_event)) ERROR_KEYWORDS"
    by code_simp
  then have ek: "\<exists>k \<in> set ERROR_KEYWORDS.
                   includes_ignoring_case (ev_message sample_error_event) k"
    unfolding list_ex_iff .
  from shouldInclude_iff [of sample_error_event, THEN conjunct1] nl ek
  have a: "shouldInclude sample_error_event" by blast
  have "list_ex (includes_ignoring_case (ev_message sample_shutdown_event)) LIFECYCLE_KEYWORDS"
    by code_simp
  then have lk: "\<exists>k \<in> set LIFECYCLE_KEYWORDS.
                   includes_ignoring_case (ev_message sample_shutdown_event) k"
    unfolding list_ex_iff .
  have "ev_stream sample_shutdown_event = Stderr" by (simp add: sample_shutdown_event_def)
  with shouldInclude_iff [of sample_shutdown_event, THEN conjunct2, THEN conjunct1] lk
  have b: "\<not> shouldInclude sample_shutdown_event" by blast
  from a b show ?thesis by (rule conjI)
qed

text \<open>
  C8 as stated fails: the last expression of \<open>ERROR_PATTERNS\<close> is the bare
  \<open>/ERROR|FATAL|CRITICAL|SEVERE/\<close>, so a line on \<open>stdout\<close> that reads \<open>SEVERE latency\<close> is
  included although it holds no lifecycle keyword, no error keyword, no HTTP status form
  and no structured log level.
\<close>

theorem shouldInclude_iff_counterexample:
  "shouldInclude sample_severe_event
 \<and> ev_stream sample_severe_event = Stdout
 \<and> \<not> list_ex (includes_ignoring_case (ev_message sample_severe_event)) LIFECYCLE_KEYWORDS
 \<and> \<not> list_ex (includes_ignoring_case (ev_message sample_severe_event)) ERROR_KEYWORDS
 \<and> \<not> rx_test False rx_http_status (ev_message sample_severe_event)
 \<and> \<not> rx_test True rx_status_code (ev_message sample_severe_event)
 \<and> \<not> rx_test False rx_json_status (ev_message sample_severe_event)
 \<and> \<not> rx_test False rx_status_text (ev_message sample_severe_event)
 \<and> \<not> rx_test True rx_json_level (ev_message sample_severe_event)
 \<and> \<not> rx_test True rx_level_eq (ev_message sample_severe_event)
 \<and> \<not> rx_test True rx_level_bracket (ev_message sample_severe_event)"
proof -
  have 1: "shouldInclude sample_severe_event" by code_simp
  have 2: "ev_stream sample_severe_event = Stdout" by (simp add: sample_severe_event_def)
  have 3: "\<not> list_ex (includes_ignoring_case (ev_message sample_severe_event)) LIFECYCLE_KEYWORDS"
    by code_simp
  have 4: "\<not> list_ex (includes_ignoring_case (ev_message sample_severe_event)) ERROR_KEYWORDS"
    by code_simp
  have 5: "\<not> rx_test False rx_http_status (ev_message sample_severe_event)" by code_simp
  have 6: "\<not> rx_test True rx_status_code (ev_message sample_severe_event)" by code_simp
  have 7: "\<not> rx_test False rx_json_status (ev_message sample_severe_event)" by code_simp
  have 8: "\<not> rx_test False rx_status_text (ev_message sample_severe_event)" by code_simp
  have 9: "\<not> rx_test True rx_json_level (ev_message sample_severe_event)" by code_simp
  have 10: "\<not> rx_test True rx_level_eq (ev_message sample_severe_event)" by code_simp
  have 11: "\<not> rx_test True rx_level_bracket (ev_message sample_severe_event)" by code_simp
  from 1 2 3 4 5 6 7 8 9 10 11 show ?thesis
    by (rule conjI [OF _ conjI [OF _ conjI [OF _ conjI [OF _ conjI [OF _ conjI [OF _ conjI
        [OF _ conjI [OF _ conjI [OF _ conjI]]]]]]]]])
qed

lemma monitor_inv_initial: "monitor_inv initial_monitor"
  by (simp add: monitor_inv_def initial_monitor_def MAX_BUFFER_SIZE_def)

lemma handleLogEvent_inv:
  assumes "monitor_inv m"
  shows "monitor_inv (fst (handleLogEvent windowMs time m event))"
  using assms
  by (auto simp: monitor_inv_def handleLogEvent_def flush_def Let_def MAX_BUFFER_SIZE_def)

lemma timer_fires_inv:
  assumes "monitor_inv m"
  shows "monitor_inv (fst (timer_fires time m))"
  using assms
  by (auto simp: monitor_inv_def timer_fires_def flush_def Let_def MAX_BUFFER_SIZE_def
      split: option.splits timeout.splits)

lemma flush_finally_inv:
  assumes "monitor_inv m" and "isProcessing m"
  shows "monitor_inv (flush_finally windowMs m)"
  using assms
  by (auto simp: monitor_inv_def flush_finally_def Let_def MAX_BUFFER_SIZE_def)

lemma monitor_step_inv:
  assumes "monitor_inv m"
  shows "monitor_inv (fst (monitor_step windowMs m inp))"
proof -
  obtain time i where inp: "inp = (time, i)" by (cases inp)
  show ?thesis
    using assms handleLogEvent_inv [OF assms] timer_fires_inv [OF assms]
      flush_finally_inv [OF assms]
    by (cases i) (auto simp: monitor_step_def inp)
qed

lemma monitor_run_inv:
  "monitor_inv m \<Longrightarrow> monitor_inv (monitor_run windowMs m inps)"
  by (induction inps arbitrary: m) (auto simp: monitor_step_inv)

lemma monitor_run_append:
  "monitor_run w m (xs @ ys) = monitor_run w (monitor_run w m xs) ys"
  by (induction xs arbitrary: m) auto

lemma monitor_step_idle_overfull:
  assumes inv: "monitor_inv m0"
    and m: "m = fst (monitor_step windowMs m0 x)"
    and idle: "\<not> isProcessing m" and full: "MAX_BUFFER_SIZE \<le> length (buffer m)"
  shows "m = m0 \<or> (\<exists>t. x = (t, CallbackDone) \<and> isProcessing m0)"
proof -
  obtain t i where x: "x = (t, i)" by (cases x)
  show ?thesis
  proof (cases i)
    case (Log e)
    show ?thesis
    proof (rule ccontr)
      assume "\<not> (m = m0 \<or> (\<exists>t. x = (t, CallbackDone) \<and> isProcessing m0))"
      then have ne: "m \<noteq> m0" by simp
      have inc: "shouldInclude e"
      proof (rule ccontr)
        assume "\<not> shouldInclude e"
        with m x Log have "m = m0" by (simp add: monitor_step_def handleLogEvent_def)
        with ne show False by simp
      qed
      show False
      proof (cases "isProcessing m0")
        case True
        with m x Log inc have "isProcessing m"
          by (simp add: monitor_step_def handleLogEvent_def Let_def)
        with idle show False by simp
      next
        case False
        show False
        proof (cases "MAX_BUFFER_SIZE \<le> length (buffer m0 @ [e])")
          case True
          with m x Log inc False have "isProcessing m"
            by (simp add: monitor_step_def handleLogEvent_def flush_def Let_def)
          with idle show False by simp
        next
          case nf: False
          with m x Log inc False have "buffer m = buffer m0 @ [e]"
            by (simp add: monitor_step_def handleLogEvent_def Let_def)
          with nf full show False by simp
        qed
      qed
    qed
  next
    case TimerFires
    show ?thesis
    proof (cases "timer m0")
      case None
      with m x TimerFires show ?thesis by (simp add: monitor_step_def timer_fires_def)
    next
      case (Some tm)
      show ?thesis
      proof (cases tm)
        case Expired
        with m x TimerFires Some show ?thesis by (simp add: monitor_step_def timer_fires_def)
      next
        case (Armed d)
        from inv Some have "buffer m0 \<noteq> []" "\<not> isProcessing m0"
          by (auto simp: monitor_inv_def)
        with m x TimerFires Some Armed have "isProcessing m"
          by (simp add: monitor_step_def timer_fires_def flush_def Let_def)
        with idle show ?thesis by simp
      qed
    qed
  next
    case CallbackDone
    show ?thesis
    proof (cases "isProcessing m0")
      case True
      with x CallbackDone show ?thesis by simp
    next
      case False
      with m x CallbackDone show ?thesis by (simp add: monitor_step_def)
    qed
  qed
qed

lemma overfull_history:
  assumes "m = monitor_run windowMs initial_monitor inps"
    and "\<not> isProcessing m" and "MAX_BUFFER_SIZE \<le> length (buffer m)"
  shows "\<exists>pre t post. inps = pre @ (t, CallbackDone) # post
           \<and> isProcessing (monitor_run windowMs initial_monitor pre)
           \<and> monitor_run windowMs initial_monitor (pre @ [(t, CallbackDone)]) = m"
  using assms
proof (induction inps arbitrary: m rule: rev_induct)
  case Nil
  then show ?case by (simp add: initial_monitor_def MAX_BUFFER_SIZE_def)
next
  case (snoc x xs)
  let ?m0 = "monitor_run windowMs initial_monitor xs"
  have inv: "monitor_inv ?m0" by (rule monitor_run_inv [OF monitor_inv_initial])
  have m: "m = fst (monitor_step windowMs ?m0 x)"
    using snoc.prems(1) by (simp add: monitor_run_append)
  from monitor_step_idle_overfull [OF inv m snoc.prems(2,3)]
  show ?case
  proof
    assume same: "m = ?m0"
    from snoc.IH [OF same snoc.prems(2,3)]
    obtain pre t post where p: "xs = pre @ (t, CallbackDone) # post"
      "isProcessing (monitor_run windowMs initial_monitor pre)"
      "monitor_run windowMs initial_monitor (pre @ [(t, CallbackDone)]) = m"
      by blast
    from p(1) have "xs @ [x] = pre @ (t, CallbackDone) # (post @ [x])" by simp
    with p(2,3) show ?thesis by blast
  next
    assume "\<exists>t. x = (t, CallbackDone) \<and> isProcessing ?m0"
    then obtain t where t: "x = (t, CallbackDone)" "isProcessing ?m0" by blast
    have "xs @ [x] = xs @ (t, CallbackDone) # []" using t(1) by simp
    moreover have "monitor_run windowMs initial_monitor (xs @ [(t, CallbackDone)]) = m"
      using snoc.prems(1) t(1) by simp
    ultimately show ?thesis using t(2) by blast
  qed
qed

lemma foldl_Set_add_replicate:
  "foldl Set_add acc (replicate n x) = (if x \<in> set acc \<or> n = 0 then acc else acc @ [x])"
  by (induction n arbitrary: acc) (auto simp: Set_add_def)

lemma new_Set_replicate: "new_Set (replicate (Suc n) x) = [x]"
  unfolding new_Set_def foldl_Set_add_replicate by simp

lemma run_logs_processing:
  assumes "shouldInclude e" and "isProcessing m"
  shows "monitor_run windowMs m (replicate n (t, Log e)) = m\<lparr>buffer := buffer m @ replicate n e\<rparr>"
  using assms(2)
proof (induction n arbitrary: m)
  case 0
  then show ?case by simp
next
  case (Suc n)
  have "fst (monitor_step windowMs m (t, Log e)) = m\<lparr>buffer := buffer m @ [e]\<rparr>"
    using assms(1) Suc.prems by (simp add: monitor_step_def handleLogEvent_def Let_def)
  with Suc.IH [of "m\<lparr>buffer := buffer m @ [e]\<rparr>"] Suc.prems show ?case
    by (simp add: replicate_app_Cons_same)
qed

lemma run_logs_below_cap:
  assumes "shouldInclude e"
    and "\<not> isProcessing m" and "length (buffer m) + n < MAX_BUFFER_SIZE"
  shows "monitor_run windowMs m (replicate n (t, Log e)) =
           (if n = 0 then m
            else \<lparr>buffer = buffer m @ replicate n e, timer = Some (Armed windowMs),
                  isProcessing = False\<rparr>)"
  using assms(2,3)
proof (induction n arbitrary: m)
  case 0
  then show ?case by simp
next
  case (Suc n)
  let ?m1 = "\<lparr>buffer = buffer m @ [e], timer = Some (Armed windowMs), isProcessing = False\<rparr>"
  have m: "m = \<lparr>buffer = buffer m, timer = timer m, isProcessing = isProcessing m\<rparr>" by simp
  have step: "fst (monitor_step windowMs m (t, Log e)) = ?m1"
    using assms(1) Suc.prems
    by (subst m) (simp add: monitor_step_def handleLogEvent_def Let_def)
  have "\<not> isProcessing ?m1" "length (buffer ?m1) + n < MAX_BUFFER_SIZE"
    using Suc.prems by simp_all
  from Suc.IH [OF this] step show ?case
    by (simp add: replicate_app_Cons_same)
qed

lemma replicate_snoc_numeral:
  "replicate 99 x @ [x] = replicate 100 x" "replicate 100 x @ [x] = replicate 101 x"
proof -
  have "(100::nat) = Suc 99" by simp
  then show "replicate 99 x @ [x] = replicate 100 x"
    by (simp only: replicate_Suc replicate_append_same)
  have "(101::nat) = Suc 100" by simp
  then show "replicate 100 x @ [x] = replicate 101 x"
    by (simp only: replicate_Suc replicate_append_same)
qed

lemma run_to_overfull:
  "monitor_run 10000 initial_monitor
     (replicate 99 (0, Log sample_error_event) @ [(1, Log sample_error_event)]
        @ replicate 100 (2, Log sample_error_event) @ [(3, CallbackDone)])
   = \<lparr>buffer = replicate 100 sample_error_event, timer = Some (Armed 0), isProcessing = False\<rparr>"
proof -
  have inc: "shouldInclude sample_error_event" by code_simp
  have r1: "monitor_run 10000 initial_monitor (replicate 99 (0, Log sample_error_event))
               = \<lparr>buffer = replicate 99 sample_error_event, timer = Some (Armed 10000),
                  isProcessing = False\<rparr>"
    using run_logs_below_cap [OF inc, of initial_monitor 99 10000 0]
    by (simp add: initial_monitor_def MAX_BUFFER_SIZE_def)
  have r2: "monitor_run 10000
              \<lparr>buffer = replicate 99 sample_error_event, timer = Some (Armed 10000),
                isProcessing = False\<rparr> [(1, Log sample_error_event)]
            = \<lparr>buffer = [], timer = None, isProcessing = True\<rparr>"
    using inc
    by (simp add: monitor_step_def handleLogEvent_def flush_def Let_def MAX_BUFFER_SIZE_def)
  have r3: "monitor_run 10000 \<lparr>buffer = [], timer = None, isProcessing = True\<rparr>
              (replicate 100 (2, Log sample_error_event))
            = \<lparr>buffer = replicate 100 sample_error_event, timer = None, isProcessing = True\<rparr>"
    using run_logs_processing [OF inc, of "\<lparr>buffer = [], timer = None, isProcessing = True\<rparr>"
        10000 100 2]
    by simp
  have r4: "monitor_run 10000
              \<lparr>buffer = replicate 100 sample_error_event, timer = None, isProcessing = True\<rparr>
              [(3, CallbackDone)]
            = \<lparr>buffer = replicate 100 sample_error_event, timer = Some (Armed 0),
               isProcessing = False\<rparr>"
    by (simp add: monitor_step_def flush_finally_def Let_def MAX_BUFFER_SIZE_def)
  show ?thesis by (simp only: monitor_run_append r1 r2 r3 r4)
qed

text \<open>
  C7, as the code has it. After any sequence of log lines, timer runs and callback
  completions: when an included event brings the buffer to \<open>MAX_BUFFER_SIZE\<close> or beyond
  and no batch is being processed, \<open>handleLogEvent\<close> clears the timer and flushes at once,
  and the batch carries the whole buffer, so at least 100 events. It carries exactly 100
  unless the buffer already held 100 events or more, and that is the case only in the
  state in which the completion of a batch callback left the monitor: the events piled up
  while that callback was in flight, and the zero-delay timer it set is still armed. When
  a batch callback completes, no timer is set; the buffer stays as it is, and if it is not
  empty a timer is set, with delay zero when the buffer holds 100 events or more and with
  the debounce window otherwise. When that zero-delay timer runs, its flush carries the
  whole buffer, so at least 100 events.
\<close>

theorem cap_flush:
  assumes "m = monitor_run windowMs initial_monitor inps"
  shows
  "(shouldInclude event \<and> \<not> isProcessing m \<and> MAX_BUFFER_SIZE \<le> length (buffer m @ [event])
      \<longrightarrow>
      handleLogEvent windowMs time m event =
           (\<lparr>buffer = [], timer = None, isProcessing = True\<rparr>,
            Some \<lparr>batch_logs = map format_log (buffer m @ [event]),
                  batch_containers = new_Set (map ev_container (buffer m @ [event])),
                  triggeredAt = time\<rparr>)
       \<and> MAX_BUFFER_SIZE \<le> length (map format_log (buffer m @ [event]))
       \<and> (length (map format_log (buffer m @ [event])) = MAX_BUFFER_SIZE
          \<or> (MAX_BUFFER_SIZE \<le> length (buffer m) \<and> timer m = Some (Armed 0)
              \<and> (\<exists>pre t post. inps = pre @ (t, CallbackDone) # post
                    \<and> isProcessing (monitor_run windowMs initial_monitor pre)
                    \<and> monitor_run windowMs initial_monitor (pre @ [(t, CallbackDone)]) = m))))
 \<and> (isProcessing m \<longrightarrow>
      timer m = None
      \<and> flush_finally windowMs m =
          m\<lparr>isProcessing := False,
            timer := (if buffer m = [] then None
                      else Some (Armed (if MAX_BUFFER_SIZE \<le> length (buffer m) then 0
                                        else windowMs)))\<rparr>)
 \<and> (\<not> isProcessing m \<and> MAX_BUFFER_SIZE \<le> length (buffer m) \<longrightarrow>
      timer m = Some (Armed 0)
      \<and> timer_fires time m =
           (\<lparr>buffer = [], timer = None, isProcessing = True\<rparr>,
            Some \<lparr>batch_logs = map format_log (buffer m),
                  batch_containers = new_Set (map ev_container (buffer m)),
                  triggeredAt = time\<rparr>)
      \<and> MAX_BUFFER_SIZE \<le> length (map format_log (buffer m)))"
  (is "?A \<and> ?B \<and> ?C")
proof -
  have inv: "monitor_inv m"
    unfolding assms by (rule monitor_run_inv [OF monitor_inv_initial])
  have m: "m = \<lparr>buffer = buffer m, timer = timer m, isProcessing = isProcessing m\<rparr>" by simp
  have a: ?A
  proof
    assume h: "shouldInclude event \<and> \<not> isProcessing m
        \<and> MAX_BUFFER_SIZE \<le> length (buffer m @ [event])"
    have 1: "handleLogEvent windowMs time m event =
           (\<lparr>buffer = [], timer = None, isProcessing = True\<rparr>,
            Some \<lparr>batch_logs = map format_log (buffer m @ [event]),
                  batch_containers = new_Set (map ev_container (buffer m @ [event])),
                  triggeredAt = time\<rparr>)"
      using h by (subst m) (simp add: handleLogEvent_def flush_def Let_def)
    have 2: "MAX_BUFFER_SIZE \<le> length (map format_log (buffer m @ [event]))"
      using h by simp
    have 3: "length (map format_log (buffer m @ [event])) = MAX_BUFFER_SIZE
          \<or> (MAX_BUFFER_SIZE \<le> length (buffer m) \<and> timer m = Some (Armed 0)
              \<and> (\<exists>pre t post. inps = pre @ (t, CallbackDone) # post
                    \<and> isProcessing (monitor_run windowMs initial_monitor pre)
                    \<and> monitor_run windowMs initial_monitor (pre @ [(t, CallbackDone)]) = m))"
    proof (cases "length (map format_log (buffer m @ [event])) = MAX_BUFFER_SIZE")
      case True
      then show ?thesis by (rule disjI1)
    next
      case False
      with h have full: "MAX_BUFFER_SIZE \<le> length (buffer m)" by simp
      from h have idle: "\<not> isProcessing m" by simp
      from inv idle full have "timer m = Some (Armed 0)" by (simp add: monitor_inv_def)
      with full overfull_history [OF assms idle full] show ?thesis by blast
    qed
    from 1 2 3
    show "handleLogEvent windowMs time m event =
           (\<lparr>buffer = [], timer = None, isProcessing = True\<rparr>,
            Some \<lparr>batch_logs = map format_log (buffer m @ [event]),
                  batch_containers = new_Set (map ev_container (buffer m @ [event])),
                  triggeredAt = time\<rparr>)
       \<and> MAX_BUFFER_SIZE \<le> length (map format_log (buffer m @ [event]))
       \<and> (length (map format_log (buffer m @ [event])) = MAX_BUFFER_SIZE
          \<or> (MAX_BUFFER_SIZE \<le> length (buffer m) \<and> timer m = Some (Armed 0)
              \<and> (\<exists>pre t post. inps = pre @ (t, CallbackDone) # post
                    \<and> isProcessing (monitor_run windowMs initial_monitor pre)
                    \<and> monitor_run windowMs initial_monitor (pre @ [(t, CallbackDone)]) = m)))"
      by (rule conjI [OF _ conjI])
  qed
  have b: ?B
  proof
    assume p: "isProcessing m"
    with inv have t: "timer m = None" by (simp add: monitor_inv_def)
    have "flush_finally windowMs m =
          m\<lparr>isProcessing := False,
            timer := (if buffer m = [] then None
                      else Some (Armed (if MAX_BUFFER_SIZE \<le> length (buffer m) then 0
                                        else windowMs)))\<rparr>"
      using t by (subst (1 2) m) (simp add: flush_finally_def Let_def)
    with t show "timer m = None
      \<and> flush_finally windowMs m =
          m\<lparr>isProcessing := False,
            timer := (if buffer m = [] then None
                      else Some (Armed (if MAX_BUFFER_SIZE \<le> length (buffer m) then 0
                                        else windowMs)))\<rparr>"
      by (rule conjI)
  qed
  have c: ?C
  proof
    assume h: "\<not> isProcessing m \<and> MAX_BUFFER_SIZE \<le> length (buffer m)"
    with inv have t: "timer m = Some (Armed 0)" by (simp add: monitor_inv_def)
    from h have ne: "buffer m \<noteq> []" by (auto simp: MAX_BUFFER_SIZE_def)
    have f: "timer_fires time m =
           (\<lparr>buffer = [], timer = None, isProcessing = True\<rparr>,
            Some \<lparr>batch_logs = map format_log (buffer m),
                  batch_containers = new_Set (map ev_container (buffer m)),
                  triggeredAt = time\<rparr>)"
      using h t ne by (subst m) (simp add: timer_fires_def flush_def Let_def)
    from h have l: "MAX_BUFFER_SIZE \<le> length (map format_log (buffer m))" by simp
    from t f l show "timer m = Some (Armed 0)
      \<and> timer_fires time m =
           (\<lparr>buffer = [], timer = None, isProcessing = True\<rparr>,
            Some \<lparr>batch_logs = map format_log (buffer m),
                  batch_containers = new_Set (map ev_container (buffer m)),
                  triggeredAt = time\<rparr>)
      \<and> MAX_BUFFER_SIZE \<le> length (map format_log (buffer m))"
      by (rule conjI [OF _ conjI])
  qed
  from a b c show ?thesis by (rule conjI [OF _ conjI])
qed

theorem cap_flush_witness:
  "handleLogEvent 10000 5 (monitor_run 10000 initial_monitor (replicate 99 (0, Log sample_error_event)))
      sample_error_event
   = (\<lparr>buffer = [], timer = None, isProcessing = True\<rparr>,
      Some \<lparr>batch_logs = replicate 100 (format_log sample_error_event),
            batch_containers = [''api''], triggeredAt = 5\<rparr>)
 \<and> timer_fires 4
      (monitor_run 10000 initial_monitor
         (replicate 99 (0, Log sample_error_event) @ [(1, Log sample_error_event)]
            @ replicate 100 (2, Log sample_error_event) @ [(3, CallbackDone)]))
   = (\<lparr>buffer = [], timer = None, isProcessing = True\<rparr>,
      Some \<lparr>batch_logs = replicate 100 (format_log sample_error_event),
            batch_containers = [''api''], triggeredAt = 4\<rparr>)"
proof -
  have inc: "shouldInclude sample_error_event" by code_simp
  have run: "monitor_run 10000 initial_monitor (replicate 99 (0, Log sample_error_event))
               = \<lparr>buffer = replicate 99 sample_error_event, timer = Some (Armed 10000),
                  isProcessing = False\<rparr>"
    using run_logs_below_cap [OF inc, of initial_monitor 99 10000 0]
    by (simp add: initial_monitor_def MAX_BUFFER_SIZE_def)
  let ?m = "monitor_run 10000 initial_monitor (replicate 99 (0, Log sample_error_event))"
  have np: "\<not> isProcessing ?m" by (simp add: run)
  have cap: "MAX_BUFFER_SIZE \<le> length (buffer ?m @ [sample_error_event])"
    by (simp add: run MAX_BUFFER_SIZE_def)
  from cap_flush [OF refl, THEN conjunct1, THEN mp, OF conjI [OF inc conjI [OF np cap]],
      THEN conjunct1, of 5]
  have a: "handleLogEvent 10000 5 ?m sample_error_event
   = (\<lparr>buffer = [], timer = None, isProcessing = True\<rparr>,
      Some \<lparr>batch_logs = replicate 100 (format_log sample_error_event),
            batch_containers = [''api''], triggeredAt = 5\<rparr>)"
    unfolding run
    by (simp add: replicate_snoc_numeral new_Set_replicate [of 99, simplified]
        sample_error_event_def)
  let ?inps = "replicate 99 (0, Log sample_error_event) @ [(1, Log sample_error_event)]
            @ replicate 100 (2, Log sample_error_event) @ [(3, CallbackDone)]"
  let ?m2 = "monitor_run 10000 initial_monitor ?inps"
  have idle: "\<not> isProcessing ?m2 \<and> MAX_BUFFER_SIZE \<le> length (buffer ?m2)"
    unfolding run_to_overfull by (simp add: MAX_BUFFER_SIZE_def)
  from cap_flush [OF refl, THEN conjunct2, THEN conjunct2, THEN mp, OF idle,
      THEN conjunct2, THEN conjunct1, of 4]
  have b: "timer_fires 4 ?m2
   = (\<lparr>buffer = [], timer = None, isProcessing = True\<rparr>,
      Some \<lparr>batch_logs = replicate 100 (format_log sample_error_event),
            batch_containers = [''api''], triggeredAt = 4\<rparr>)"
    unfolding run_to_overfull
    by (simp add: new_Set_replicate [of 99, simplified] sample_error_event_def)
  from a b show ?thesis by (rule conjI)
qed

text \<open>
  C7 as stated fails: 100 events are flushed, 100 more arrive while the callback is in
  flight, the callback completes, and the next event arrives before the zero-delay timer
  runs. The cap then flushes a batch of 101 events.
\<close>

theorem cap_flush_counterexample:
  "monitor_run 10000 initial_monitor
     (replicate 99 (0, Log sample_error_event) @ [(1, Log sample_error_event)]
        @ replicate 100 (2, Log sample_error_event) @ [(3, CallbackDone)])
   = \<lparr>buffer = replicate 100 sample_error_event, timer = Some (Armed 0), isProcessing = False\<rparr>
 \<and> shouldInclude sample_error_event
 \<and> handleLogEvent 10000 4
      \<lparr>buffer = replicate 100 sample_error_event, timer = Some (Armed 0), isProcessing = False\<rparr>
      sample_error_event
   = (\<lparr>buffer = [], timer = None, isProcessing = True\<rparr>,
      Some \<lparr>batch_logs = replicate 101 (format_log sample_error_event),
            batch_containers = [''api''], triggeredAt = 4\<rparr>)
 \<and> length (replicate 101 (format_log sample_error_event)) \<noteq> MAX_BUFFER_SIZE"
proof -
  have inc: "shouldInclude sample_error_event" by code_simp
  have run_append: "monitor_run w m (xs @ ys) = monitor_run w (monitor_run w m xs) ys"
    for w m xs ys
    by (induction xs arbitrary: m) auto
  have r1: "monitor_run 10000 initial_monitor (replicate 99 (0, Log sample_error_event))
               = \<lparr>buffer = replicate 99 sample_error_event, timer = Some (Armed 10000),
                  isProcessing = False\<rparr>"
    using run_logs_below_cap [OF inc, of initial_monitor 99 10000 0]
    by (simp add: initial_monitor_def MAX_BUFFER_SIZE_def)
  have r2: "monitor_run 10000
              \<lparr>buffer = replicate 99 sample_error_event, timer = Some (Armed 10000),
                isProcessing = False\<rparr> [(1, Log sample_error_event)]
            = \<lparr>buffer = [], timer = None, isProcessing = True\<rparr>"
    using inc
    by (simp add: monitor_step_def handleLogEvent_def flush_def Let_def MAX_BUFFER_SIZE_def)
  have r3: "monitor_run 10000 \<lparr>buffer = [], timer = None, isProcessing = True\<rparr>
              (replicate 100 (2, Log sample_error_event))
            = \<lparr>buffer = replicate 100 sample_error_event, timer = None, isProcessing = True\<rparr>"
    using run_logs_processing [OF inc, of "\<lparr>buffer = [], timer = None, isProcessing = True\<rparr>"
        10000 100 2]
    by simp
  have r4: "monitor_run 10000
              \<lparr>buffer = replicate 100 sample_error_event, timer = None, isProcessing = True\<rparr>
              [(3, CallbackDone)]
            = \<lparr>buffer = replicate 100 sample_error_event, timer = Some (Armed 0),
               isProcessing = False\<rparr>"
    by (simp add: monitor_step_def flush_finally_def Let_def MAX_BUFFER_SIZE_def)
  have a: "monitor_run 10000 initial_monitor
     (replicate 99 (0, Log sample_error_event) @ [(1, Log sample_error_event)]
        @ replicate 100 (2, Log sample_error_event) @ [(3, CallbackDone)])
   = \<lparr>buffer = replicate 100 sample_error_event, timer = Some (Armed 0), isProcessing = False\<rparr>"
    by (simp only: run_append r1 r2 r3 r4)
  have r101: "replicate 100 x @ [x] = replicate 101 x" for x :: "'a"
  proof -
    have "(101::nat) = Suc 100" by simp
    then show ?thesis by (simp only: replicate_Suc replicate_append_same)
  qed
  have c: "handleLogEvent 10000 4
      \<lparr>buffer = replicate 100 sample_error_event, timer = Some (Armed 0), isProcessing = False\<rparr>
      sample_error_event
   = (\<lparr>buffer = [], timer = None, isProcessing = True\<rparr>,
      Some \<lparr>batch_logs = replicate 101 (format_log sample_error_event),
            batch_containers = [''api''], triggeredAt = 4\<rparr>)"
    using inc
    by (simp add: handleLogEvent_def flush_def Let_def MAX_BUFFER_SIZE_def r101
        new_Set_replicate [of 100, simplified] sample_error_event_def)
  have d: "length (replicate 101 (format_log sample_error_event)) \<noteq> MAX_BUFFER_SIZE"
    by (simp add: MAX_BUFFER_SIZE_def)
  from a inc c d show ?thesis by (rule conjI [OF _ conjI [OF _ conjI]])
qed

end
